theory Spec2Isabelle
  imports Main
begin

section \<open>Values of the host language\<close>

text \<open>
  The sources are TypeScript. A string is a list of code units (only the units below 256
  are representable as \<^typ>\<open>char\<close>), a number that can be \<open>NaN\<close> is an
  \<^typ>\<open>int option\<close> with \<open>None\<close> for \<open>NaN\<close>, \<open>undefined\<close> is
  \<open>None\<close>, and a thrown exception is the left summand of a result.
\<close>

type_synonym number = "int option"

datatype error =
    TypeError
  | SyntaxError
  | Error string

text \<open>What running a piece of code ends in: a value, an exception, or no end at all.\<close>

datatype 'a outcome =
    Returns 'a
  | Throws error
  | Diverges

text \<open>
  \<open>ToString\<close> of a string that may be \<open>undefined\<close>, as string concatenation and
  template literals apply it, and the truth value of such a string.
\<close>

definition ToString :: "string option \<Rightarrow> string" where
  "ToString x = (case x of None \<Rightarrow> ''undefined'' | Some s \<Rightarrow> s)"

definition truthy :: "string option \<Rightarrow> bool" where
  "truthy x = (case x of None \<Rightarrow> False | Some s \<Rightarrow> s \<noteq> [])"

text \<open>\<open>a || b\<close>: the left operand when it is truthy, the right one otherwise.\<close>

definition OR :: "string option \<Rightarrow> string option \<Rightarrow> string option" where
  "OR a b = (if truthy a then a else b)"

text \<open>\<open>s.substr(1)\<close>.\<close>

definition substr1 :: "string \<Rightarrow> string" where
  "substr1 s = drop 1 s"

text \<open>
  A \<open>Map\<close> keeps its keys in insertion order: \<open>set\<close> on a key that is present
  replaces the value where it stands, \<open>set\<close> on a new key appends.
\<close>

type_synonym ('k, 'v) Map = "('k \<times> 'v) list"

definition Map_get :: "('k, 'v) Map \<Rightarrow> 'k \<Rightarrow> 'v option" where
  "Map_get m k = map_of m k"

fun Map_set :: "'k \<Rightarrow> 'v \<Rightarrow> ('k, 'v) Map \<Rightarrow> ('k, 'v) Map" where
  "Map_set k v [] = [(k, v)]"
| "Map_set k v (p # ps) = (if fst p = k then (k, v) # ps else p # Map_set k v ps)"

definition Map_delete :: "'k \<Rightarrow> ('k, 'v) Map \<Rightarrow> ('k, 'v) Map" where
  "Map_delete k m = filter (\<lambda>p. fst p \<noteq> k) m"

definition Map_values :: "('k, 'v) Map \<Rightarrow> 'v list" where
  "Map_values m = map snd m"

text \<open>\<open>xs[i]\<close>: \<open>undefined\<close> outside the array.\<close>

definition Array_get :: "'a list \<Rightarrow> int \<Rightarrow> 'a option" where
  "Array_get xs i = (if 0 \<le> i \<and> i < int (length xs) then Some (xs ! nat i) else None)"

text \<open>\<open>xs.slice(b, e)\<close> for indices that are not negative.\<close>

definition Array_slice :: "'a list \<Rightarrow> nat \<Rightarrow> nat \<Rightarrow> 'a list" where
  "Array_slice xs b e = take (e - b) (drop b xs)"

text \<open>
  \<open>xs.sort(cmp)\<close>, as a stable insertion sort: an element moves behind those the
  comparator puts strictly before it. A comparator result \<open>NaN\<close> counts as \<open>0\<close>
  here; the order that an engine gives elements that compare as equal or as \<open>NaN\<close> is
  its own, and the properties below use only that \<open>sort\<close> rearranges the array.
\<close>

fun Array_insort :: "('a \<Rightarrow> 'a \<Rightarrow> number) \<Rightarrow> 'a \<Rightarrow> 'a list \<Rightarrow> 'a list" where
  "Array_insort cmp x [] = [x]"
| "Array_insort cmp x (y # ys) =
     (if (case cmp x y of None \<Rightarrow> False | Some d \<Rightarrow> 0 < d) then y # Array_insort cmp x ys
      else x # y # ys)"

definition Array_sort :: "('a \<Rightarrow> 'a \<Rightarrow> number) \<Rightarrow> 'a list \<Rightarrow> 'a list" where
  "Array_sort cmp xs = foldr (Array_insort cmp) xs []"

section \<open>Regular expressions\<close>

text \<open>
  The regular expressions of the sources, as syntax trees, and a backtracking matcher
  that returns every way an expression can match at a position, in the order in which
  backtracking tries them: the head of the list is the match \<open>exec\<close> reports.
  Capture groups never stand under a quantifier in the expressions of the sources, so
  the matcher does not reset groups when an iteration starts again.
\<close>

datatype citem = CChar char | CRange char char | CSpace | CNonSpace

datatype regex =
    Eps
  | Chr char
  | Dot
  | Cls "citem list"
  | Bol
  | Eol
  | Seq regex regex
  | Alt regex regex
  | Star regex
  | LazyStar regex
  | Opt regex
  | Group nat regex
  | Lookahead regex
  | NCls "citem list"

text \<open>Line terminators and white space, among the code units below 256.\<close>

definition isLineTerminator :: "char \<Rightarrow> bool" where
  "isLineTerminator c = (c = CHR 0x0A \<or> c = CHR 0x0D)"

definition isWhiteSpace :: "char \<Rightarrow> bool" where
  "isWhiteSpace c =
     (c = CHR 0x09 \<or> c = CHR 0x0A \<or> c = CHR 0x0B \<or> c = CHR 0x0C \<or> c = CHR 0x0D
      \<or> c = CHR 0x20 \<or> c = CHR 0xA0)"

fun inItem :: "char \<Rightarrow> citem \<Rightarrow> bool" where
  "inItem c (CChar d) = (c = d)"
| "inItem c (CRange a b) = ((of_char a :: nat) \<le> of_char c \<and> (of_char c :: nat) \<le> of_char b)"
| "inItem c CSpace = isWhiteSpace c"
| "inItem c CNonSpace = (\<not> isWhiteSpace c)"

text \<open>
  A matcher state: the code unit before the position (\<open>None\<close> at the start of the
  input), the input from the position on, and the captures so far (index 0 is the
  whole match).
\<close>

type_synonym RegExpExecArray = "string option list"

type_synonym mstate = "char option \<times> string \<times> RegExpExecArray"

definition rest :: "mstate \<Rightarrow> string" where
  "rest st = fst (snd st)"

definition caps :: "mstate \<Rightarrow> RegExpExecArray" where
  "caps st = snd (snd st)"

definition step1 :: "(char \<Rightarrow> bool) \<Rightarrow> mstate \<Rightarrow> mstate list" where
  "step1 P st =
     (case rest st of [] \<Rightarrow> [] | x # xs \<Rightarrow> if P x then [(Some x, xs, caps st)] else [])"

text \<open>
  The first argument is the \<open>m\<close> flag. An iteration of a quantifier that consumes
  nothing is rejected, as the language defines it.
\<close>

function rmatch :: "bool \<Rightarrow> regex \<Rightarrow> mstate \<Rightarrow> mstate list" where
  "rmatch m Eps st = [st]"
| "rmatch m (Chr c) st = step1 (\<lambda>x. x = c) st"
| "rmatch m Dot st = step1 (\<lambda>x. \<not> isLineTerminator x) st"
| "rmatch m (Cls cs) st = step1 (\<lambda>x. list_ex (inItem x) cs) st"
| "rmatch m Bol st =
     (if fst st = None \<or> (m \<and> (case fst st of None \<Rightarrow> False | Some c \<Rightarrow> isLineTerminator c))
      then [st] else [])"
| "rmatch m Eol st =
     (if rest st = [] \<or> (m \<and> (case rest st of [] \<Rightarrow> False | c # _ \<Rightarrow> isLineTerminator c))
      then [st] else [])"
| "rmatch m (Seq a b) st = concat (map (rmatch m b) (rmatch m a st))"
| "rmatch m (Alt a b) st = rmatch m a st @ rmatch m b st"
| "rmatch m (Star a) st =
     concat (map (\<lambda>st'. if length (rest st') < length (rest st) then rmatch m (Star a) st' else [])
               (rmatch m a st)) @ [st]"
| "rmatch m (LazyStar a) st =
     st # concat (map (\<lambda>st'. if length (rest st') < length (rest st)
                              then rmatch m (LazyStar a) st' else [])
                    (rmatch m a st))"
| "rmatch m (Opt a) st =
     filter (\<lambda>st'. length (rest st') < length (rest st)) (rmatch m a st) @ [st]"
| "rmatch m (Group i a) st =
     map (\<lambda>st'. (fst st', rest st',
                  (caps st')[i := Some (take (length (rest st) - length (rest st')) (rest st))]))
       (rmatch m a st)"
| "rmatch m (Lookahead a) st =
     (case rmatch m a st of [] \<Rightarrow> [] | st' # _ \<Rightarrow> [(fst st, rest st, caps st')])"
| "rmatch m (NCls cs) st = step1 (\<lambda>x. \<not> list_ex (inItem x) cs) st"
  by pat_completeness auto
termination
  by (relation "inv_image (less_than <*lex*> less_than) (\<lambda>(m, r, st). (size r, length (rest st)))")
    auto

definition seqs :: "regex list \<Rightarrow> regex" where
  "seqs rs = foldr Seq rs Eps"

definition lit :: "string \<Rightarrow> regex" where
  "lit s = seqs (map Chr s)"

text \<open>\<open>r+\<close> and \<open>r{n}\<close>.\<close>

definition plus :: "regex \<Rightarrow> regex" where
  "plus r = Seq r (Star r)"

definition rep :: "nat \<Rightarrow> regex \<Rightarrow> regex" where
  "rep n r = seqs (replicate n r)"

text \<open>
  \<open>exec\<close> from an index on: the first index at or after it where the expression
  matches. The result is the input skipped before the match (reversed while it is
  collected), the array of the match, and the input after the match with the code unit
  before it. \<open>n\<close> is the number of capture groups.
\<close>

fun exec_from ::
  "bool \<Rightarrow> regex \<Rightarrow> nat \<Rightarrow> string \<Rightarrow> char option \<Rightarrow> string \<Rightarrow>
   (string \<times> RegExpExecArray \<times> char option \<times> string) option" where
  "exec_from m r n pre p s =
     (case rmatch m (Group 0 r) (p, s, replicate (Suc n) None) of
        st # _ \<Rightarrow> Some (rev pre, caps st, fst st, rest st)
      | [] \<Rightarrow> (case s of [] \<Rightarrow> None | x # xs \<Rightarrow> exec_from m r n (x # pre) (Some x) xs))"

text \<open>\<open>r.exec(s)\<close> for an expression without the \<open>g\<close> flag.\<close>

definition RegExp_exec :: "bool \<Rightarrow> regex \<Rightarrow> nat \<Rightarrow> string \<Rightarrow> RegExpExecArray option" where
  "RegExp_exec m r n s = map_option (\<lambda>x. fst (snd x)) (exec_from m r n [] None s)"

text \<open>\<open>ma[i]\<close>.\<close>

definition grp :: "RegExpExecArray \<Rightarrow> nat \<Rightarrow> string option" where
  "grp ma i = (if i < length ma then ma ! i else None)"

text \<open>\<open>s.replace(r, t)\<close> for an expression without the \<open>g\<close> flag and a plain \<open>t\<close>.\<close>

definition String_replace :: "bool \<Rightarrow> regex \<Rightarrow> string \<Rightarrow> string \<Rightarrow> string" where
  "String_replace m r s t =
     (case exec_from m r 0 [] None s of
        None \<Rightarrow> s
      | Some x \<Rightarrow> fst x @ t @ snd (snd (snd x)))"

text \<open>
  The loop \<open>while ((ma = r.exec(s)) != null) body\<close> over an expression with the \<open>g\<close>
  flag, whose \<open>lastIndex\<close> is 0 when the loop starts (the loop leaves it at 0 when it
  ends). The body maps the state of the loop to the next one or throws. A match that
  consumes nothing leaves \<open>lastIndex\<close> where it is, and the loop finds it again for
  ever.
\<close>

function execLoop ::
  "bool \<Rightarrow> regex \<Rightarrow> nat \<Rightarrow> (RegExpExecArray \<Rightarrow> 'a \<Rightarrow> error + 'a) \<Rightarrow>
   char option \<Rightarrow> string \<Rightarrow> 'a \<Rightarrow> 'a outcome" where
  "execLoop m r n body p s a =
     (case exec_from m r n [] p s of
        None \<Rightarrow> Returns a
      | Some x \<Rightarrow>
          (case body (fst (snd x)) a of
             Inl e \<Rightarrow> Throws e
           | Inr a' \<Rightarrow>
               if length (snd (snd (snd x))) < length s
               then execLoop m r n body (fst (snd (snd x))) (snd (snd (snd x))) a'
               else Diverges))"
  by pat_completeness auto
termination
  by (relation "measure (\<lambda>(m, r, n, body, p, s, a). length s)") auto

section \<open>The remote parser\<close>

definition sp :: regex where
  "sp = Cls [CSpace]"

definition digit :: regex where
  "digit = Cls [CRange CHR ''0'' CHR ''9'']"

text \<open>\<^verbatim>\<open>/^(.*)\t(.*)\s\((.*)\)$/gm\<close>\<close>

definition remoteRegex :: regex where
  "remoteRegex =
     seqs [Bol, Group 1 (Star Dot), Chr CHR 0x09, Group 2 (Star Dot), sp, Chr CHR ''('',
           Group 3 (Star Dot), Chr CHR '')'', Eol]"

text \<open>
  \<^verbatim>\<open>/^(?:(git:\/\/)(.*?)\/|(https?:\/\/)(?:.*?@)?(.*?)\/|git@(.*):|(ssh:\/\/)(?:.*@)?(.*?)(?::.*?)?(?:\/|(?=~))|(?:.*?@)(.*?):)(.*)$/\<close>
\<close>

definition urlRegex :: regex where
  "urlRegex =
     seqs [Bol,
       Alt (seqs [Group 1 (lit ''git://''), Group 2 (LazyStar Dot), Chr CHR ''/''])
      (Alt (seqs [Group 3 (seqs [lit ''http'', Opt (Chr CHR ''s''), lit ''://'']),
                  Opt (seqs [LazyStar Dot, Chr CHR ''@'']), Group 4 (LazyStar Dot), Chr CHR ''/''])
      (Alt (seqs [lit ''git@'', Group 5 (Star Dot), Chr CHR '':''])
      (Alt (seqs [Group 6 (lit ''ssh://''), Opt (seqs [Star Dot, Chr CHR ''@'']),
                  Group 7 (LazyStar Dot), Opt (seqs [Chr CHR '':'', LazyStar Dot]),
                  Alt (Chr CHR ''/'') (Lookahead (Chr CHR ''~''))])
           (seqs [seqs [LazyStar Dot, Chr CHR ''@''], Group 8 (LazyStar Dot), Chr CHR '':''])))),
       Group 9 (Star Dot), Eol]"

text \<open>\<^verbatim>\<open>/\.git\/?$/\<close>\<close>

definition dotGitRegex :: regex where
  "dotGitRegex = seqs [lit ''.git'', Opt (Chr CHR ''/''), Eol]"

text \<open>
  \<open>parseGitUrl\<close>. An alternative of \<open>urlRegex\<close> that has no scheme group leaves
  the three scheme groups \<open>undefined\<close>, and so is the first component then; the
  declared type of the result is a triple of strings. \<open>replace\<close> on an \<open>undefined\<close>
  ninth group would throw.
\<close>

definition parseGitUrl :: "string \<Rightarrow> error + (string option \<times> string option \<times> string)" where
  "parseGitUrl url =
     (case RegExp_exec False urlRegex 9 url of
        None \<Rightarrow> Inr (Some [], Some [], [])
      | Some ma \<Rightarrow>
          (case grp ma 9 of
             None \<Rightarrow> Inl TypeError
           | Some p \<Rightarrow>
               Inr (OR (OR (grp ma 1) (grp ma 3)) (grp ma 6),
                    OR (OR (OR (OR (grp ma 2) (grp ma 4)) (grp ma 5)) (grp ma 7)) (grp ma 8),
                    String_replace False dotGitRegex p [])))"

text \<open>
  Modelled from the spec: the classes \<open>GitRemote\<close> and \<open>RemoteProvider\<close> and the type
  \<open>GitRemoteType\<close> are declared outside the sources at hand. A \<open>GitRemote\<close> holds the
  arguments of its constructor, in their order, under the names of the data model; of
  a \<open>RemoteProvider\<close> the parser reads \<open>domain\<close> and \<open>path\<close>.
\<close>

record RemoteProvider =
  domain :: string
  path :: string

record RemoteType =
  url :: string
  type :: string

record GitRemote =
  repoPath :: string
  uniquenessKey :: string
  name :: string
  scheme :: "string option"
  domain :: "string option"
  path :: string
  provider :: "RemoteProvider option"
  types :: "RemoteType list"

text \<open>
  The body of the loop of \<open>parse\<close>. The array \<open>remotes\<close> holds the remote objects;
  \<open>groups\<close> maps a key to the object entered under it, here to its index in
  \<open>remotes\<close>, so that \<open>remote.types.push\<close> changes the element of \<open>remotes\<close>.
\<close>

definition parseMatch ::
  "string \<Rightarrow> (string option \<Rightarrow> string \<Rightarrow> RemoteProvider option) \<Rightarrow> RegExpExecArray \<Rightarrow>
   GitRemote list \<times> (string, nat) Map \<Rightarrow> error + GitRemote list \<times> (string, nat) Map" where
  "parseMatch rp providerFactory ma st =
     (let u = substr1 ('' '' @ ToString (grp ma 2)) in
      case parseGitUrl u of
        Inl e \<Rightarrow> Inl e
      | Inr (sch, dm, pth) \<Rightarrow>
          let uniqueness = ToString dm @ ''/'' @ pth;
              t = \<lparr>url = u, type = substr1 ('' '' @ ToString (grp ma 3))\<rparr>
          in
            (case Map_get (snd st) uniqueness of
               None \<Rightarrow>
                 let prov = providerFactory dm pth;
                     remote =
                       \<lparr>GitRemote.repoPath = rp,
                        uniquenessKey = uniqueness,
                        GitRemote.name = substr1 ('' '' @ ToString (grp ma 1)),
                        scheme = sch,
                        GitRemote.domain =
                          (case prov of None \<Rightarrow> dm | Some pr \<Rightarrow> Some (RemoteProvider.domain pr)),
                        GitRemote.path =
                          (case prov of None \<Rightarrow> pth | Some pr \<Rightarrow> RemoteProvider.path pr),
                        provider = prov,
                        types = [t]\<rparr>
                 in Inr (fst st @ [remote], Map_set uniqueness (length (fst st)) (snd st))
             | Some i \<Rightarrow>
                 Inr ((fst st)[i := (fst st ! i)\<lparr>types := types (fst st ! i) @ [t]\<rparr>], snd st)))"

text \<open>
  \<open>parse\<close>. \<open>remoteRegex\<close> is a constant of the module and has the \<open>g\<close> flag, so the
  first \<open>exec\<close> of a call starts at the \<open>lastIndex\<close> that the calls before left:
  0 after a loop that ended with \<open>null\<close>, the end of the last match after a loop that
  an exception ended. \<open>lastIndex\<close> below is that index; beyond the end of the data
  \<open>exec\<close> returns \<open>null\<close> at once. The provider factory is the caller's function and
  returns a provider or \<open>undefined\<close>.
\<close>

definition charBefore :: "string \<Rightarrow> nat \<Rightarrow> char option" where
  "charBefore s i = (if i = 0 then None else Some (s ! (i - 1)))"

definition parse ::
  "string \<Rightarrow> string \<Rightarrow> (string option \<Rightarrow> string \<Rightarrow> RemoteProvider option) \<Rightarrow> nat \<Rightarrow>
   GitRemote list outcome" where
  "parse data rp providerFactory lastIndex =
     (if data = [] then Returns []
      else if length data < lastIndex then Returns []
      else
        (case execLoop True remoteRegex 3 (parseMatch rp providerFactory)
                (charBefore data lastIndex) (drop lastIndex data) ([], []) of
           Returns st \<Rightarrow> (if length (fst st) = 0 then Returns [] else Returns (fst st))
         | Throws e \<Rightarrow> Throws e
         | Diverges \<Rightarrow> Diverges))"

section \<open>The blame model\<close>

record IGitAuthor =
  name :: string
  lineCount :: nat

record IGitCommitLine =
  sha :: string
  line :: number
  originalLine :: number
  originalFileName :: "string option"

record IGitCommit =
  sha :: string
  fileName :: string
  author :: string
  date :: number
  lines :: "IGitCommitLine list"

record IGitBlame =
  authors :: "(string, IGitAuthor) Map"
  commits :: "(string, IGitCommit) Map"
  lines :: "IGitCommitLine list"

text \<open>
  \<open>Object.assign({}, a, { lineCount: n })\<close>: the copy has the name of \<open>a\<close> only when
  \<open>a\<close> is an object; an \<open>undefined\<close> source is skipped.
\<close>

record AssignedAuthor =
  name :: "string option"
  lineCount :: nat

definition Object_assign_lineCount :: "IGitAuthor option \<Rightarrow> nat \<Rightarrow> AssignedAuthor" where
  "Object_assign_lineCount a n =
     \<lparr>AssignedAuthor.name = map_option IGitAuthor.name a, AssignedAuthor.lineCount = n\<rparr>"

record IGitBlameLine =
  author :: AssignedAuthor
  commit :: IGitCommit
  line :: IGitCommitLine

record Position =
  line :: nat
  character :: nat

record Range =
  start :: Position
  end' :: Position

subsection \<open>getBlameForLine\<close>

text \<open>
  The callback of \<open>getBlameForLine\<close> on the blame of the file. Reading \<open>sha\<close> of an
  \<open>undefined\<close> line and \<open>author\<close> of an \<open>undefined\<close> commit throw a
  \<open>TypeError\<close>; the author is read through \<open>Object.assign\<close>, which does not throw.
\<close>

definition getBlameForLine :: "IGitBlame \<Rightarrow> int \<Rightarrow> error + IGitBlameLine" where
  "getBlameForLine blame ln =
     (case Array_get (IGitBlame.lines blame) ln of
        None \<Rightarrow> Inl TypeError
      | Some blameLine \<Rightarrow>
          (case Map_get (commits blame) (IGitCommitLine.sha blameLine) of
             None \<Rightarrow> Inl TypeError
           | Some c \<Rightarrow>
               Inr \<lparr>IGitBlameLine.author =
                      Object_assign_lineCount (Map_get (authors blame) (IGitCommit.author c))
                        (length (IGitCommit.lines c)),
                    commit = c,
                    IGitBlameLine.line = blameLine\<rparr>))"

subsection \<open>getBlameForRange\<close>

definition number_ge :: "number \<Rightarrow> nat \<Rightarrow> bool" where
  "number_ge x n = (case x of None \<Rightarrow> False | Some i \<Rightarrow> int n \<le> i)"

definition number_le :: "number \<Rightarrow> nat \<Rightarrow> bool" where
  "number_le x n = (case x of None \<Rightarrow> False | Some i \<Rightarrow> i \<le> int n)"

text \<open>
  The body of \<open>blame.commits.forEach\<close>, on the two maps it fills. An author that
  is not yet in \<open>authors\<close> is entered under its name with count 0, and the count of
  the entry is then raised where the entry stands.
\<close>

definition rangeCommit ::
  "Range \<Rightarrow> string list \<Rightarrow> IGitCommit \<Rightarrow>
   (string, IGitAuthor) Map \<times> (string, IGitCommit) Map \<Rightarrow>
   (string, IGitAuthor) Map \<times> (string, IGitCommit) Map" where
  "rangeCommit rng shas c acc =
     (if IGitCommit.sha c \<notin> set shas then acc
      else
        let c' = c\<lparr>IGitCommit.lines :=
                   filter (\<lambda>l. number_ge (IGitCommitLine.line l) (Position.line (start rng))
                              \<and> number_le (IGitCommitLine.line l) (Position.line (end' rng)))
                     (IGitCommit.lines c)\<rparr>;
            cs = Map_set (IGitCommit.sha c) c' (snd acc);
            a = (case Map_get (fst acc) (IGitCommit.author c') of
                   None \<Rightarrow> \<lparr>IGitAuthor.name = IGitCommit.author c', IGitAuthor.lineCount = 0\<rparr>
                 | Some a \<Rightarrow> a)
        in (Map_set (IGitAuthor.name a)
              (a\<lparr>IGitAuthor.lineCount := IGitAuthor.lineCount a + length (IGitCommit.lines c')\<rparr>)
              (fst acc),
            cs))"

definition byLineCount :: "IGitAuthor \<Rightarrow> IGitAuthor \<Rightarrow> number" where
  "byLineCount a b = Some (int (IGitAuthor.lineCount b) - int (IGitAuthor.lineCount a))"

definition sortAuthors :: "(string, IGitAuthor) Map \<Rightarrow> (string, IGitAuthor) Map" where
  "sortAuthors as =
     fold (\<lambda>a m. Map_set (IGitAuthor.name a) a m) (Array_sort byLineCount (Map_values as)) []"

definition getBlameForRange :: "IGitBlame \<Rightarrow> Range \<Rightarrow> IGitBlame" where
  "getBlameForRange blame rng =
     (if IGitBlame.lines blame = [] then blame
      else if Position.line (start rng) = 0
              \<and> int (Position.line (end' rng)) = int (length (IGitBlame.lines blame)) - 1
      then blame
      else
        let ls = Array_slice (IGitBlame.lines blame) (Position.line (start rng))
                   (Position.line (end' rng) + 1);
            shas = map IGitCommitLine.sha ls;
            acc = fold (rangeCommit rng shas) (Map_values (commits blame)) ([], [])
        in \<lparr>authors = sortAuthors (fst acc), commits = snd acc, IGitBlame.lines = ls\<rparr>)"

section \<open>Identifiers\<close>

text \<open>
  The values an identifier carries, as the language holds them at run time: what
  \<open>JSON.parse\<close> returns, and objects of the class \<open>Range\<close>. A property that is
  \<open>undefined\<close> is a property that is absent. The numbers of an identifier are integers.
\<close>

datatype jsvalue =
    JNull
  | JBool bool
  | JNumber int
  | JString string
  | JArray "jsvalue list"
  | JObject "(string \<times> jsvalue) list"
  | JRange Range


fun digitsOf :: "nat \<Rightarrow> string" where
  "digitsOf n = (if n < 10 then [char_of (48 + n)] else digitsOf (n div 10) @ [char_of (48 + n mod 10)])"

declare digitsOf.simps [simp del]

definition Number_toString :: "int \<Rightarrow> string" where
  "Number_toString i = (if i < 0 then CHR ''-'' # digitsOf (nat (- i)) else digitsOf (nat i))"




subsection \<open>JSON\<close>

definition hexDigit :: "nat \<Rightarrow> char" where
  "hexDigit n = (if n < 10 then char_of (48 + n) else char_of (87 + n))"

text \<open>The quotation mark is \<open>0x22\<close>, the reverse solidus \<open>0x5C\<close>.\<close>

definition escapeChar :: "char \<Rightarrow> string" where
  "escapeChar c =
     (if c = CHR 0x22 then [CHR 0x5C, CHR 0x22]
      else if c = CHR 0x5C then [CHR 0x5C, CHR 0x5C]
      else if c = CHR 0x08 then [CHR 0x5C, CHR ''b'']
      else if c = CHR 0x0C then [CHR 0x5C, CHR ''f'']
      else if c = CHR 0x0A then [CHR 0x5C, CHR ''n'']
      else if c = CHR 0x0D then [CHR 0x5C, CHR ''r'']
      else if c = CHR 0x09 then [CHR 0x5C, CHR ''t'']
      else if (of_char c :: nat) < 32
        then [CHR 0x5C, CHR ''u'', CHR ''0'', CHR ''0'',
              hexDigit (of_char c div 16), hexDigit (of_char c mod 16)]
      else [c])"

definition quote :: "string \<Rightarrow> string" where
  "quote s = CHR 0x22 # concat (map escapeChar s) @ [CHR 0x22]"

fun commaSep :: "string list \<Rightarrow> string" where
  "commaSep [] = []"
| "commaSep [x] = x"
| "commaSep (x # y # ys) = x @ CHR '','' # commaSep (y # ys)"

text \<open>\<open>JSON.stringify\<close>. A \<open>Range\<close> serialises as the array of its two positions.\<close>

definition Position_json :: "Position \<Rightarrow> string" where
  "Position_json p =
     ''{'' @ quote ''line'' @ '':'' @ Number_toString (int (Position.line p)) @ '',''
     @ quote ''character'' @ '':'' @ Number_toString (int (character p)) @ ''}''"

fun JSON_stringify :: "jsvalue \<Rightarrow> string" where
  "JSON_stringify JNull = ''null''"
| "JSON_stringify (JBool b) = (if b then ''true'' else ''false'')"
| "JSON_stringify (JNumber i) = Number_toString i"
| "JSON_stringify (JString s) = quote s"
| "JSON_stringify (JArray vs) = CHR ''['' # commaSep (map JSON_stringify vs) @ '']''"
| "JSON_stringify (JObject m) =
     CHR ''{'' # commaSep (map (\<lambda>kv. quote (fst kv) @ CHR '':'' # JSON_stringify (snd kv)) m) @ ''}''"
| "JSON_stringify (JRange r) =
     CHR ''['' # commaSep [Position_json (start r), Position_json (end' r)] @ '']''"

text \<open>
  \<open>JSON.parse\<close>, by recursive descent. The first argument bounds the number of nested
  calls; \<open>JSON_parse\<close> starts with a bound that no text exhausts. A literal with a
  fraction or an exponent and an escape of a code unit above 255 are outside the model
  and are refused. Properties keep the order of the text.
\<close>

definition isJsonWs :: "char \<Rightarrow> bool" where
  "isJsonWs c = (c = CHR 0x20 \<or> c = CHR 0x09 \<or> c = CHR 0x0A \<or> c = CHR 0x0D)"

definition skipWs :: "string \<Rightarrow> string" where
  "skipWs s = dropWhile isJsonWs s"

definition isDigit :: "char \<Rightarrow> bool" where
  "isDigit c = ((48 :: nat) \<le> of_char c \<and> (of_char c :: nat) \<le> 57)"

definition digitVal :: "char \<Rightarrow> nat" where
  "digitVal c = of_char c - 48"

definition hexVal :: "char \<Rightarrow> nat option" where
  "hexVal c =
     (let n = (of_char c :: nat) in
      if 48 \<le> n \<and> n \<le> 57 then Some (n - 48)
      else if 97 \<le> n \<and> n \<le> 102 then Some (n - 87)
      else if 65 \<le> n \<and> n \<le> 70 then Some (n - 55)
      else None)"

definition unescape :: "char \<Rightarrow> char option" where
  "unescape e =
     (if e = CHR 0x22 then Some (CHR 0x22)
      else if e = CHR 0x5C then Some (CHR 0x5C)
      else if e = CHR ''/'' then Some (CHR ''/'')
      else if e = CHR ''b'' then Some (CHR 0x08)
      else if e = CHR ''f'' then Some (CHR 0x0C)
      else if e = CHR ''n'' then Some (CHR 0x0A)
      else if e = CHR ''r'' then Some (CHR 0x0D)
      else if e = CHR ''t'' then Some (CHR 0x09)
      else None)"

definition unicodeEscape :: "char \<Rightarrow> char \<Rightarrow> char \<Rightarrow> char \<Rightarrow> char option" where
  "unicodeEscape a b c d =
     (case (hexVal a, hexVal b, hexVal c, hexVal d) of
        (Some w, Some x, Some y, Some z) \<Rightarrow>
          if w = 0 \<and> x = 0 then Some (char_of (y * 16 + z)) else None
      | _ \<Rightarrow> None)"

text \<open>The characters of a string literal, after its opening quotation mark.\<close>

fun parseChars :: "string \<Rightarrow> string \<Rightarrow> (string \<times> string) option" where
  "parseChars acc [] = None"
| "parseChars acc (c # cs) =
     (if c = CHR 0x22 then Some (rev acc, cs)
      else if c = CHR 0x5C then
        (case cs of
           [] \<Rightarrow> None
         | e # es \<Rightarrow>
             if e = CHR ''u'' then
               (case es of
                  h1 # h2 # h3 # h4 # r \<Rightarrow>
                    (case unicodeEscape h1 h2 h3 h4 of
                       None \<Rightarrow> None
                     | Some x \<Rightarrow> parseChars (x # acc) r)
                | _ \<Rightarrow> None)
             else
               (case unescape e of
                  None \<Rightarrow> None
                | Some x \<Rightarrow> parseChars (x # acc) es))
      else if (of_char c :: nat) < 32 then None
      else parseChars (c # acc) cs)"

definition parseNumber :: "string \<Rightarrow> (int \<times> string) option" where
  "parseNumber s =
     (let neg = (case s of [] \<Rightarrow> False | c # _ \<Rightarrow> c = CHR ''-'');
          t = (if neg then drop 1 s else s);
          ds = takeWhile isDigit t;
          r = dropWhile isDigit t;
          v = foldl (\<lambda>a c. a * 10 + int (digitVal c)) 0 ds
      in if ds = [] then None
         else if 1 < length ds \<and> hd ds = CHR ''0'' then None
         else if (case r of [] \<Rightarrow> False | c # _ \<Rightarrow> c = CHR ''.'' \<or> c = CHR ''e'' \<or> c = CHR ''E'')
           then None
         else Some (if neg then - v else v, r))"

definition parseLiteral :: "string \<Rightarrow> jsvalue \<Rightarrow> string \<Rightarrow> (jsvalue \<times> string) option" where
  "parseLiteral w v s = (if take (length w) s = w then Some (v, drop (length w) s) else None)"

fun parseValue :: "nat \<Rightarrow> string \<Rightarrow> (jsvalue \<times> string) option"
  and parseElements :: "nat \<Rightarrow> jsvalue list \<Rightarrow> string \<Rightarrow> (jsvalue \<times> string) option"
  and parseMembers :: "nat \<Rightarrow> (string \<times> jsvalue) list \<Rightarrow> string \<Rightarrow> (jsvalue \<times> string) option"
  where
  "parseValue 0 s = None"
| "parseValue (Suc n) s =
     (case skipWs s of
        [] \<Rightarrow> None
      | c # cs \<Rightarrow>
          if c = CHR ''{'' then
            (case skipWs cs of
               [] \<Rightarrow> None
             | d # ds \<Rightarrow> if d = CHR ''}'' then Some (JObject [], ds) else parseMembers n [] cs)
          else if c = CHR ''['' then
            (case skipWs cs of
               [] \<Rightarrow> None
             | d # ds \<Rightarrow> if d = CHR '']'' then Some (JArray [], ds) else parseElements n [] cs)
          else if c = CHR 0x22 then
            (case parseChars [] cs of None \<Rightarrow> None | Some x \<Rightarrow> Some (JString (fst x), snd x))
          else if c = CHR ''t'' then parseLiteral ''true'' (JBool True) (c # cs)
          else if c = CHR ''f'' then parseLiteral ''false'' (JBool False) (c # cs)
          else if c = CHR ''n'' then parseLiteral ''null'' JNull (c # cs)
          else
            (case parseNumber (c # cs) of None \<Rightarrow> None | Some x \<Rightarrow> Some (JNumber (fst x), snd x)))"
| "parseElements 0 acc s = None"
| "parseElements (Suc n) acc s =
     (case parseValue n s of
        None \<Rightarrow> None
      | Some x \<Rightarrow>
          (case skipWs (snd x) of
             [] \<Rightarrow> None
           | d # ds \<Rightarrow>
               if d = CHR '','' then parseElements n (acc @ [fst x]) ds
               else if d = CHR '']'' then Some (JArray (acc @ [fst x]), ds)
               else None))"
| "parseMembers 0 acc s = None"
| "parseMembers (Suc n) acc s =
     (case skipWs s of
        [] \<Rightarrow> None
      | q # cs \<Rightarrow>
          if q \<noteq> CHR 0x22 then None
          else
            (case parseChars [] cs of
               None \<Rightarrow> None
             | Some k \<Rightarrow>
                 (case skipWs (snd k) of
                    [] \<Rightarrow> None
                  | c # r \<Rightarrow>
                      if c \<noteq> CHR '':'' then None
                      else
                        (case parseValue n r of
                           None \<Rightarrow> None
                         | Some x \<Rightarrow>
                             (case skipWs (snd x) of
                                [] \<Rightarrow> None
                              | d # ds \<Rightarrow>
                                  if d = CHR '','' then parseMembers n (Map_set (fst k) (fst x) acc) ds
                                  else if d = CHR ''}''
                                    then Some (JObject (Map_set (fst k) (fst x) acc), ds)
                                  else None)))))"

definition JSON_parse :: "string \<Rightarrow> error + jsvalue" where
  "JSON_parse s =
     (case parseValue (Suc (2 * length s)) s of
        None \<Rightarrow> Inl SyntaxError
      | Some x \<Rightarrow> if skipWs (snd x) = [] then Inr (fst x) else Inl SyntaxError)"

subsection \<open>The platform\<close>

record Uri =
  scheme :: string
  authority :: string
  path :: string
  query :: string
  fragment :: string

text \<open>
  What the codec takes from outside the sources at hand: the two tags of the table
  \<open>DocumentSchemes\<close> of \<open>./constants\<close>, and the functions of the platform whose results
  only enter the label of an identifier or an error message (\<open>decodeURIComponent\<close>,
  \<open>uri.toString()\<close>, \<open>extname\<close>, \<open>dirname\<close>, \<open>basename\<close> of \<open>path\<close> and the date
  format of \<open>moment\<close>).
\<close>

record Platform =
  Git :: string
  GitBlame :: string
  decodeURIComponent :: "string \<Rightarrow> error + string"
  Uri_toString :: "Uri \<Rightarrow> string"
  extname :: "string \<Rightarrow> string"
  dirname :: "string \<Rightarrow> string"
  basename :: "string \<Rightarrow> string \<Rightarrow> string"
  formatDate :: "number \<Rightarrow> string"

text \<open>
  \<open>Uri.parse\<close> splits its argument with the expression
  \<^verbatim>\<open>/^(([^:/?#]+?):)?(\/\/([^/?#]*))?([^?#]*)(\?([^#]*))?(#(.*))?/\<close>
  and decodes the components other than the scheme.
\<close>

definition uriRegexp :: regex where
  "uriRegexp =
     seqs [Bol,
       Opt (Group 1 (seqs [Group 2 (Seq (NCls [CChar CHR '':'', CChar CHR ''/'', CChar CHR ''?'', CChar CHR ''#''])
                                     (LazyStar (NCls [CChar CHR '':'', CChar CHR ''/'', CChar CHR ''?'', CChar CHR ''#'']))),
                           Chr CHR '':''])),
       Opt (Group 3 (seqs [lit ''//'', Group 4 (Star (NCls [CChar CHR ''/'', CChar CHR ''?'', CChar CHR ''#'']))])),
       Group 5 (Star (NCls [CChar CHR ''?'', CChar CHR ''#''])),
       Opt (Group 6 (seqs [Chr CHR ''?'', Group 7 (Star (NCls [CChar CHR ''#'']))])),
       Opt (Group 8 (seqs [Chr CHR ''#'', Group 9 (Star Dot)]))]"

definition andThen :: "error + 'a \<Rightarrow> ('a \<Rightarrow> error + 'b) \<Rightarrow> error + 'b" where
  "andThen x f = (case x of Inl e \<Rightarrow> Inl e | Inr a \<Rightarrow> f a)"

definition Uri_parse :: "Platform \<Rightarrow> string \<Rightarrow> error + Uri" where
  "Uri_parse env v =
     (case RegExp_exec False uriRegexp 9 v of
        None \<Rightarrow> Inr \<lparr>scheme = [], authority = [], path = [], query = [], fragment = []\<rparr>
      | Some ma \<Rightarrow>
          andThen (decodeURIComponent env (ToString (OR (grp ma 4) (Some [])))) (\<lambda>a.
          andThen (decodeURIComponent env (ToString (OR (grp ma 5) (Some [])))) (\<lambda>p.
          andThen (decodeURIComponent env (ToString (OR (grp ma 7) (Some [])))) (\<lambda>q.
          andThen (decodeURIComponent env (ToString (OR (grp ma 9) (Some [])))) (\<lambda>f.
            Inr \<lparr>scheme = ToString (OR (grp ma 2) (Some [])), authority = a,
                 path = p, query = q, fragment = f\<rparr>)))))"

subsection \<open>Encoding\<close>

text \<open>\<open>ToString\<close> of a value, as string concatenation applies it.\<close>

fun JS_ToString :: "jsvalue \<Rightarrow> string" where
  "JS_ToString JNull = ''null''"
| "JS_ToString (JBool b) = (if b then ''true'' else ''false'')"
| "JS_ToString (JNumber i) = Number_toString i"
| "JS_ToString (JString s) = s"
| "JS_ToString (JArray vs) = commaSep (map (\<lambda>v. if v = JNull then [] else JS_ToString v) vs)"
| "JS_ToString (JObject m) = ''[object Object]''"
| "JS_ToString (JRange r) = ''[object Object]''"

text \<open>\<open>s.slice(-k)\<close>.\<close>

definition slice_last :: "nat \<Rightarrow> string \<Rightarrow> string" where
  "slice_last k s = (if k = 0 then s else drop (length s - k) s)"

text \<open>\<open>_toGitUriData\<close>: the local \<open>fileName\<close> it computes first is never read.\<close>

definition private_toGitUriData :: "IGitCommit \<Rightarrow> int \<Rightarrow> string option \<Rightarrow> (string \<times> jsvalue) list" where
  "private_toGitUriData c index ofn =
     (let data = [(''fileName'', JString (IGitCommit.fileName c)),
                  (''sha'', JString (IGitCommit.sha c)),
                  (''index'', JNumber index)]
      in if truthy ofn then Map_set ''originalFileName'' (JString (ToString ofn)) data else data)"

definition private_toGitBlameUriData ::
  "IGitCommit \<Rightarrow> int \<Rightarrow> Range \<Rightarrow> string option \<Rightarrow> (string \<times> jsvalue) list" where
  "private_toGitBlameUriData c index rng ofn =
     Map_set ''range'' (JRange rng) (private_toGitUriData c index ofn)"

text \<open>
  \<open>_toGitUri\<close>. The functions of \<open>path\<close> throw when \<open>data.fileName\<close> is not a string.
\<close>

definition private_toGitUri ::
  "Platform \<Rightarrow> string \<Rightarrow> IGitCommit \<Rightarrow> int \<Rightarrow> (string \<times> jsvalue) list \<Rightarrow> error + Uri" where
  "private_toGitUri env sch c commitCount data =
     (case Map_get data ''fileName'' of
        Some (JString f) \<Rightarrow>
          let pad = (\<lambda>n. slice_last (length (Number_toString commitCount))
                            (''0000000'' @ (case n of None \<Rightarrow> ''undefined'' | Some v \<Rightarrow> JS_ToString v)));
              ext = extname env f;
              pth = dirname env f @ ''/'' @ IGitCommit.sha c @ '': '' @ basename env f ext @ ext
          in Uri_parse env
               (sch @ '':'' @ pad (Map_get data ''index'') @ ''. '' @ IGitCommit.author c @ '', ''
                @ formatDate env (date c) @ '' - '' @ pth @ ''?'' @ JSON_stringify (JObject data))
      | _ \<Rightarrow> Inl TypeError)"

definition toGitUri :: "Platform \<Rightarrow> IGitCommit \<Rightarrow> int \<Rightarrow> int \<Rightarrow> string option \<Rightarrow> error + Uri" where
  "toGitUri env c index commitCount ofn =
     private_toGitUri env (Git env) c commitCount (private_toGitUriData c index ofn)"

definition toBlameUri ::
  "Platform \<Rightarrow> IGitCommit \<Rightarrow> int \<Rightarrow> int \<Rightarrow> Range \<Rightarrow> string option \<Rightarrow> error + Uri" where
  "toBlameUri env c index commitCount rng ofn =
     private_toGitUri env (GitBlame env) c commitCount (private_toGitBlameUriData c index rng ofn)"

subsection \<open>Decoding\<close>

definition private_fromGitUri :: "Uri \<Rightarrow> error + jsvalue" where
  "private_fromGitUri uri = JSON_parse (query uri)"

definition invalidScheme :: "Platform \<Rightarrow> Uri \<Rightarrow> error" where
  "invalidScheme env uri = Error (''fromGitUri(uri='' @ Uri_toString env uri @ '') invalid scheme'')"

definition fromGitUri :: "Platform \<Rightarrow> Uri \<Rightarrow> error + jsvalue" where
  "fromGitUri env uri =
     (if Uri.scheme uri \<noteq> Git env then Inl (invalidScheme env uri) else private_fromGitUri uri)"



section \<open>The blame of a file\<close>

text \<open>
  \<^verbatim>\<open>/^([\^0-9a-fA-F]{8})\s([\S]*)\s+([0-9\S]+)\s\((.*)\s([0-9]{4}-[0-9]{2}-[0-9]{2}\s[0-9]{2}:[0-9]{2}:[0-9]{2}\s[-|+][0-9]{4})\s+([0-9]+)\)(.*)$/gm\<close>
\<close>

definition blameMatcher :: regex where
  "blameMatcher =
     seqs [Bol,
       Group 1 (rep 8 (Cls [CChar CHR ''^'', CRange CHR ''0'' CHR ''9'', CRange CHR ''a'' CHR ''f'',
                            CRange CHR ''A'' CHR ''F''])),
       sp,
       Group 2 (Star (Cls [CNonSpace])),
       plus sp,
       Group 3 (plus (Cls [CRange CHR ''0'' CHR ''9'', CNonSpace])),
       sp, Chr CHR ''('',
       Group 4 (Star Dot),
       sp,
       Group 5 (seqs [rep 4 digit, Chr CHR ''-'', rep 2 digit, Chr CHR ''-'', rep 2 digit, sp,
                      rep 2 digit, Chr CHR '':'', rep 2 digit, Chr CHR '':'', rep 2 digit, sp,
                      Cls [CChar CHR ''-'', CChar CHR ''|'', CChar CHR ''+''], rep 4 digit]),
       plus sp,
       Group 6 (plus digit),
       Chr CHR '')'',
       Group 7 (Star Dot),
       Eol]"

text \<open>
  \<open>trim\<close>, \<open>toLowerCase\<close>, \<open>endsWith\<close> and \<open>parseInt(s, 10)\<close>. The integer of
  \<open>parseInt10\<close> is exact; JavaScript rounds one beyond \<open>2^53\<close> to the nearest double.
\<close>

definition String_trim :: "string \<Rightarrow> string" where
  "String_trim s = rev (dropWhile isWhiteSpace (rev (dropWhile isWhiteSpace s)))"

definition toLowerChar :: "char \<Rightarrow> char" where
  "toLowerChar c =
     (let n = (of_char c :: nat)
      in if (65 \<le> n \<and> n \<le> 90) \<or> (192 \<le> n \<and> n \<le> 222 \<and> n \<noteq> 215) then char_of (n + 32) else c)"

definition String_toLowerCase :: "string \<Rightarrow> string" where
  "String_toLowerCase s = map toLowerChar s"

definition String_endsWith :: "string \<Rightarrow> string \<Rightarrow> bool" where
  "String_endsWith s t = (length t \<le> length s \<and> drop (length s - length t) s = t)"

definition parseInt10 :: "string \<Rightarrow> number" where
  "parseInt10 s =
     (let t = dropWhile isWhiteSpace s;
          neg = (case t of [] \<Rightarrow> False | c # _ \<Rightarrow> c = CHR ''-'');
          u = (case t of [] \<Rightarrow> [] | c # r \<Rightarrow> if c = CHR ''-'' \<or> c = CHR ''+'' then r else t);
          ds = takeWhile isDigit u;
          v = foldl (\<lambda>a c. a * 10 + int (digitVal c)) 0 ds
      in if ds = [] then None else Some (if neg then - v else v))"

text \<open>
  The body of the loop over the matches of \<open>blameMatcher\<close>, on the two maps and the
  array it fills. \<open>trim\<close> of an \<open>undefined\<close> group throws; the first group is the sha,
  and the model has no \<open>undefined\<close> sha and refuses one (every group takes part in
  every match of \<open>blameMatcher\<close>). \<open>new Date\<close> of a text that is not in the standard
  format is the platform's; \<open>dateOf\<close> stands for it.
\<close>

type_synonym blameState =
  "(string, IGitAuthor) Map \<times> (string, IGitCommit) Map \<times> IGitCommitLine list"

definition blameStep ::
  "(string \<Rightarrow> number) \<Rightarrow> string \<Rightarrow> RegExpExecArray \<Rightarrow> blameState \<Rightarrow> error + blameState" where
  "blameStep dateOf fname m st =
     (case (grp m 4, grp m 1, grp m 2) of
        (Some m4, Some sh, Some m2) \<Rightarrow>
          let authorName = String_trim m4;
              as = (case Map_get (fst st) authorName of
                      None \<Rightarrow>
                        Map_set authorName
                          \<lparr>IGitAuthor.name = authorName, IGitAuthor.lineCount = 0\<rparr> (fst st)
                    | Some a \<Rightarrow> fst st);
              c = (case Map_get (fst (snd st)) sh of
                     None \<Rightarrow>
                       \<lparr>IGitCommit.sha = sh, fileName = fname,
                        IGitCommit.author = String_trim m4,
                        date = (case grp m 5 of None \<Rightarrow> None | Some d \<Rightarrow> dateOf d),
                        IGitCommit.lines = []\<rparr>
                   | Some c \<Rightarrow> c);
              file = String_trim m2;
              l = \<lparr>IGitCommitLine.sha = sh,
                   IGitCommitLine.line = map_option (\<lambda>i. i - 1) (parseInt10 (ToString (grp m 6))),
                   originalLine = map_option (\<lambda>i. i - 1) (parseInt10 (ToString (grp m 3))),
                   originalFileName =
                     (if \<not> String_endsWith (String_toLowerCase fname) (String_toLowerCase file)
                      then Some file else None)\<rparr>
          in Inr (as,
                  Map_set sh (c\<lparr>IGitCommit.lines := IGitCommit.lines c @ [l]\<rparr>) (fst (snd st)),
                  snd (snd st) @ [l])
      | _ \<Rightarrow> Inl TypeError)"

text \<open>
  \<open>commits.forEach(c => authors.get(c.author).lineCount += c.lines.length)\<close>: reading
  \<open>lineCount\<close> of an author that \<open>authors\<close> does not hold throws.
\<close>

fun countLines ::
  "IGitCommit list \<Rightarrow> (string, IGitAuthor) Map \<Rightarrow> error + (string, IGitAuthor) Map" where
  "countLines [] as = Inr as"
| "countLines (c # cs) as =
     (case Map_get as (IGitCommit.author c) of
        None \<Rightarrow> Inl TypeError
      | Some a \<Rightarrow>
          countLines cs
            (Map_set (IGitCommit.author c)
               (a\<lparr>IGitAuthor.lineCount := IGitAuthor.lineCount a + length (IGitCommit.lines c)\<rparr>) as))"

definition byDate :: "IGitCommit \<Rightarrow> IGitCommit \<Rightarrow> number" where
  "byDate a b =
     (case (date b, date a) of (Some x, Some y) \<Rightarrow> Some (x - y) | _ \<Rightarrow> None)"

definition sortCommits :: "(string, IGitCommit) Map \<Rightarrow> (string, IGitCommit) Map" where
  "sortCommits cs =
     fold (\<lambda>c m. Map_set (IGitCommit.sha c) c m) (Array_sort byDate (Map_values cs)) []"

text \<open>
  The callback that \<open>getBlameForFile\<close> chains to the output of \<open>Git.blame\<close>.
\<close>

definition getBlameForFile_then :: "(string \<Rightarrow> number) \<Rightarrow> string \<Rightarrow> string \<Rightarrow> IGitBlame outcome" where
  "getBlameForFile_then dateOf fname data =
     (case execLoop True blameMatcher 7 (blameStep dateOf fname) None data ([], [], []) of
        Returns st \<Rightarrow>
          (case countLines (Map_values (fst (snd st))) (fst st) of
             Inl e \<Rightarrow> Throws e
           | Inr as \<Rightarrow>
               Returns \<lparr>authors = sortAuthors as, commits = sortCommits (fst (snd st)),
                        IGitBlame.lines = snd (snd st)\<rparr>)
      | Throws e \<Rightarrow> Throws e
      | Diverges \<Rightarrow> Diverges)"

section \<open>The cache of blames\<close>

text \<open>
  A promise is pending until it is settled, once, with a result or with an error.
\<close>

datatype 'a promise = Pending | Fulfilled 'a | Rejected error

text \<open>
  The provider holds \<open>_blames\<close>, which maps a normalized file name to a promise; the
  promise is held by reference, here its index in the list of the promises that the
  calls of \<open>Git.blame(...).then(...)\<close> made, each with the file name of its call.
  \<open>subscription\<close> tells whether the two handlers that the constructor registers, for a
  document that is closed and for one that is saved, are still registered.
\<close>

record GitProvider =
  repoPath :: string
  blames :: "(string, nat) Map"
  subscription :: bool

record Runtime =
  gitProvider :: GitProvider
  promises :: "(string \<times> IGitBlame promise) list"

text \<open>
  \<open>dispose\<close>, \<open>_removeFile\<close> and \<open>getBlameForFile\<close>. Each runs to its end before
  anything else does; \<open>Git.normalizePath\<close> is a parameter, and \<open>Git.blame\<close> returns a
  promise that is pending.
\<close>

definition dispose :: "GitProvider \<Rightarrow> GitProvider" where
  "dispose p = p\<lparr>blames := [], subscription := False\<rparr>"

definition private_removeFile ::
  "(string \<Rightarrow> string \<Rightarrow> string) \<Rightarrow> string \<Rightarrow> GitProvider \<Rightarrow> GitProvider" where
  "private_removeFile normalizePath fileName0 p =
     (let fname = normalizePath fileName0 (GitProvider.repoPath p)
      in p\<lparr>blames := Map_delete fname (blames p)\<rparr>)"

definition getBlameForFile ::
  "(string \<Rightarrow> string \<Rightarrow> string) \<Rightarrow> string \<Rightarrow> Runtime \<Rightarrow> nat \<times> Runtime" where
  "getBlameForFile normalizePath fileName0 w =
     (let fname = normalizePath fileName0 (GitProvider.repoPath (gitProvider w))
      in case Map_get (blames (gitProvider w)) fname of
           Some blame \<Rightarrow> (blame, w)
         | None \<Rightarrow>
             let blame = length (promises w)
             in (blame,
                 w\<lparr>promises := promises w @ [(fname, Pending)],
                   gitProvider :=
                     (gitProvider w)\<lparr>blames := Map_set fname blame (blames (gitProvider w))\<rparr>\<rparr>))"

text \<open>
  The promise of \<open>Git.blame\<close> settles: with an error the promise that \<open>then\<close> made
  is rejected with it, with the text the callback runs on it.
\<close>

definition settle :: "(string \<Rightarrow> number) \<Rightarrow> nat \<Rightarrow> error + string \<Rightarrow> Runtime \<Rightarrow> Runtime" where
  "settle dateOf h res w =
     (if h < length (promises w) \<and> snd (promises w ! h) = Pending then
        let fname = fst (promises w ! h);
            v = (case res of
                   Inl e \<Rightarrow> Rejected e
                 | Inr data \<Rightarrow>
                     (case getBlameForFile_then dateOf fname data of
                        Returns b \<Rightarrow> Fulfilled b
                      | Throws e \<Rightarrow> Rejected e
                      | Diverges \<Rightarrow> Pending))
        in w\<lparr>promises := (promises w)[h := (fname, v)]\<rparr>
      else w)"

text \<open>
  What happens to a provider: a caller asks for the blame of a file, the editor closes
  or saves a document (the two subscriptions of the constructor, as long as they are
  registered), the promise of a \<open>Git.blame\<close> settles, the provider is disposed. A run
  collects the promises the callers got.
\<close>

datatype event =
    Request string
  | DidCloseTextDocument string
  | DidSaveTextDocument string
  | BlameSettled nat "error + string"
  | Dispose

fun step ::
  "(string \<Rightarrow> string \<Rightarrow> string) \<Rightarrow> (string \<Rightarrow> number) \<Rightarrow> event \<Rightarrow> Runtime
   \<Rightarrow> (string \<times> nat) list \<times> Runtime" where
  "step np d (Request f) w = (let r = getBlameForFile np f w in ([(f, fst r)], snd r))"
| "step np d (DidCloseTextDocument f) w =
     ([], if subscription (gitProvider w)
          then w\<lparr>gitProvider := private_removeFile np f (gitProvider w)\<rparr> else w)"
| "step np d (DidSaveTextDocument f) w =
     ([], if subscription (gitProvider w)
          then w\<lparr>gitProvider := private_removeFile np f (gitProvider w)\<rparr> else w)"
| "step np d (BlameSettled h res) w = ([], settle d h res w)"
| "step np d Dispose w = ([], w\<lparr>gitProvider := dispose (gitProvider w)\<rparr>)"

fun run ::
  "(string \<Rightarrow> string \<Rightarrow> string) \<Rightarrow> (string \<Rightarrow> number) \<Rightarrow> event list \<Rightarrow> Runtime
   \<Rightarrow> (string \<times> nat) list \<times> Runtime" where
  "run np d [] w = ([], w)"
| "run np d (e # es) w =
     (let a = step np d e w; b = run np d es (snd a) in (fst a @ fst b, snd b))"

section \<open>Auxiliary notions for the proofs\<close>

text \<open>
  The least number of code units a match of an expression consumes, and the capture
  groups that every match of an expression sets.
\<close>

fun minlen :: "regex \<Rightarrow> nat" where
  "minlen Eps = 0"
| "minlen (Chr c) = 1"
| "minlen Dot = 1"
| "minlen (Cls cs) = 1"
| "minlen Bol = 0"
| "minlen Eol = 0"
| "minlen (Seq a b) = minlen a + minlen b"
| "minlen (Alt a b) = min (minlen a) (minlen b)"
| "minlen (Star a) = 0"
| "minlen (LazyStar a) = 0"
| "minlen (Opt a) = 0"
| "minlen (Group i a) = minlen a"
| "minlen (Lookahead a) = 0"
| "minlen (NCls cs) = 1"

fun mandatory :: "regex \<Rightarrow> nat list" where
  "mandatory (Seq a b) = mandatory a @ mandatory b"
| "mandatory (Alt a b) = filter (\<lambda>i. i \<in> set (mandatory b)) (mandatory a)"
| "mandatory (Group i a) = i # mandatory a"
| "mandatory r = []"

text \<open>A later capture array keeps the length and the defined groups of an earlier one.\<close>

definition keeps :: "RegExpExecArray \<Rightarrow> RegExpExecArray \<Rightarrow> bool" where
  "keeps g g' = (length g' = length g \<and> (\<forall>i < length g. g ! i \<noteq> None \<longrightarrow> g' ! i \<noteq> None))"

text \<open>What \<open>exec\<close> returns for an expression with \<open>n\<close> groups.\<close>

definition okMatch :: "regex \<Rightarrow> nat \<Rightarrow> RegExpExecArray \<Rightarrow> bool" where
  "okMatch r n ma = (length ma = Suc n \<and> (\<forall>i \<in> set (mandatory r). i \<le> n \<longrightarrow> ma ! i \<noteq> None))"

text \<open>
  The state of the loop of \<open>parse\<close> is linked when \<open>groups\<close> maps exactly the
  keys of the remotes in \<open>remotes\<close> to their indices.
\<close>

definition linked :: "GitRemote list \<times> (string, nat) Map \<Rightarrow> bool" where
  "linked st =
     ((\<forall>k i. Map_get (snd st) k = Some i \<longrightarrow> i < length (fst st) \<and> uniquenessKey (fst st ! i) = k)
      \<and> (\<forall>i < length (fst st). Map_get (snd st) (uniquenessKey (fst st ! i)) = Some i))"

text \<open>
  The arrays that the successive calls of \<open>exec\<close> in the loop return, up to the call
  that returns \<open>null\<close>, and the body of the loop run over them.
\<close>

function execAll :: "bool \<Rightarrow> regex \<Rightarrow> nat \<Rightarrow> char option \<Rightarrow> string \<Rightarrow> RegExpExecArray list" where
  "execAll m r n p s =
     (case exec_from m r n [] p s of
        None \<Rightarrow> []
      | Some x \<Rightarrow>
          fst (snd x) #
            (if length (snd (snd (snd x))) < length s
             then execAll m r n (fst (snd (snd x))) (snd (snd (snd x)))
             else []))"
  by pat_completeness auto
termination
  by (relation "measure (\<lambda>(m, r, n, p, s). length s)") auto

fun forEach :: "('b \<Rightarrow> 'a \<Rightarrow> error + 'a) \<Rightarrow> 'b list \<Rightarrow> 'a \<Rightarrow> error + 'a" where
  "forEach body [] a = Inr a"
| "forEach body (x # xs) a = (case body x a of Inl e \<Rightarrow> Inl e | Inr a' \<Rightarrow> forEach body xs a')"

text \<open>
  What the body of the loop of \<open>parse\<close> reads from a match: the url, the key under
  which the remote is filed, and the entry of \<open>types\<close>.
\<close>

definition entryUrl :: "RegExpExecArray \<Rightarrow> string" where
  "entryUrl ma = substr1 ('' '' @ ToString (grp ma 2))"

definition entryKey :: "RegExpExecArray \<Rightarrow> string" where
  "entryKey ma =
     (case parseGitUrl (entryUrl ma) of
        Inl e \<Rightarrow> []
      | Inr (sch, dm, pth) \<Rightarrow> ToString dm @ ''/'' @ pth)"

definition entryType :: "RegExpExecArray \<Rightarrow> RemoteType" where
  "entryType ma = \<lparr>url = entryUrl ma, type = substr1 ('' '' @ ToString (grp ma 3))\<rparr>"

text \<open>
  The state of the loop of \<open>parse\<close> after the matches \<open>ms\<close>: the keys of the remotes
  are the keys of the matches, and the \<open>types\<close> of a remote are the entries of the
  matches of its key, in their order.
\<close>

definition merged :: "RegExpExecArray list \<Rightarrow> GitRemote list \<times> (string, nat) Map \<Rightarrow> bool" where
  "merged ms st =
     (linked st
      \<and> set (map uniquenessKey (fst st)) = set (map entryKey ms)
      \<and> (\<forall>i < length (fst st).
            types (fst st ! i)
            = map entryType (filter (\<lambda>ma. entryKey ma = uniquenessKey (fst st ! i)) ms)))"

text \<open>The matches that the loop of \<open>parse\<close> sees.\<close>

definition remoteLines :: "string \<Rightarrow> nat \<Rightarrow> RegExpExecArray list" where
  "remoteLines data lastIndex =
     (if data = [] \<or> length data < lastIndex then []
      else execAll True remoteRegex 3 (charBefore data lastIndex) (drop lastIndex data))"

text \<open>
  The state of the loop of \<open>getBlameForFile\<close> between two matches: every author is
  filed under its name with no lines counted yet, every commit is filed under its sha
  and its author is known, and the commits hold as many lines as the list of all lines.
\<close>

definition authorsOk :: "(string, IGitAuthor) Map \<Rightarrow> bool" where
  "authorsOk as =
     (list_all (\<lambda>p. IGitAuthor.name (snd p) = fst p) as \<and> distinct (map fst as))"

definition blameInv :: "blameState \<Rightarrow> bool" where
  "blameInv st =
     (authorsOk (fst st)
      \<and> list_all (\<lambda>p. IGitAuthor.lineCount (snd p) = 0) (fst st)
      \<and> list_all (\<lambda>p. IGitCommit.sha (snd p) = fst p
                        \<and> Map_get (fst st) (IGitCommit.author (snd p)) \<noteq> None) (fst (snd st))
      \<and> distinct (map fst (fst (snd st)))
      \<and> sum_list (map (\<lambda>c. length (IGitCommit.lines c)) (Map_values (fst (snd st))))
          = length (snd (snd st)))"

text \<open>The events that can remove the entry of a key, and the builds started for a key.\<close>

fun removes :: "(string \<Rightarrow> string \<Rightarrow> string) \<Rightarrow> string \<Rightarrow> string \<Rightarrow> event \<Rightarrow> bool" where
  "removes np rp k (DidCloseTextDocument f) = (np f rp = k)"
| "removes np rp k (DidSaveTextDocument f) = (np f rp = k)"
| "removes np rp k Dispose = True"
| "removes np rp k e = False"

definition buildsFor :: "string \<Rightarrow> Runtime \<Rightarrow> nat" where
  "buildsFor k w = count_list (map fst (promises w)) k"

text \<open>A key is cached with a promise when \<open>_blames\<close> maps it to a promise made for it.\<close>

definition cached :: "string \<Rightarrow> nat \<Rightarrow> Runtime \<Rightarrow> bool" where
  "cached k h w =
     (Map_get (blames (gitProvider w)) k = Some h \<and> h < length (promises w)
      \<and> fst (promises w ! h) = k)"

section \<open>Example values\<close>

definition blame2 :: IGitBlame where
  "blame2 =
     \<lparr>authors = [(''Alice'', \<lparr>IGitAuthor.name = ''Alice'', IGitAuthor.lineCount = 2\<rparr>)],
      commits =
        [(''a1b2c3d4'',
          \<lparr>IGitCommit.sha = ''a1b2c3d4'', fileName = ''file.txt'', IGitCommit.author = ''Alice'',
           date = Some 0,
           IGitCommit.lines =
             [\<lparr>IGitCommitLine.sha = ''a1b2c3d4'', IGitCommitLine.line = Some 0,
               originalLine = Some 0, originalFileName = None\<rparr>,
              \<lparr>IGitCommitLine.sha = ''a1b2c3d4'', IGitCommitLine.line = Some 1,
               originalLine = Some 1, originalFileName = None\<rparr>]\<rparr>)],
      IGitBlame.lines =
        [\<lparr>IGitCommitLine.sha = ''a1b2c3d4'', IGitCommitLine.line = Some 0,
          originalLine = Some 0, originalFileName = None\<rparr>,
         \<lparr>IGitCommitLine.sha = ''a1b2c3d4'', IGitCommitLine.line = Some 1,
          originalLine = Some 1, originalFileName = None\<rparr>]\<rparr>"

definition range01 :: Range where
  "range01 = \<lparr>start = \<lparr>Position.line = 0, character = 0\<rparr>,
              end' = \<lparr>Position.line = 1, character = 0\<rparr>\<rparr>"

definition listing2 :: string where
  "listing2 =
     ''origin'' @ [CHR 0x09] @ ''https://github.com/user/repo.git (fetch)'' @ [CHR 0x0A]
     @ ''origin'' @ [CHR 0x09] @ ''https://github.com/user/repo.git (push)''"

definition listing3 :: string where
  "listing3 =
     ''origin'' @ [CHR 0x09] @ ''https://github.com/user/repo.git (fetch)'' @ [CHR 0x0A]
     @ ''upstream'' @ [CHR 0x09] @ ''git@github.com:user/repo (push)'' @ [CHR 0x0A]
     @ ''fork'' @ [CHR 0x09] @ ''https://gitlab.com/me/repo.git (fetch)''"

definition noProvider :: "string option \<Rightarrow> string \<Rightarrow> RemoteProvider option" where
  "noProvider dm pth = None"

text \<open>
  Stand-ins for the functions of \<open>path\<close> on names with \<open>/\<close> as the separator,
  and a platform for the examples: it decodes nothing (the examples hold no \<open>%\<close>),
  prints a \<open>Uri\<close> from its parts and formats every date as the epoch.
\<close>

definition posix_base :: "string \<Rightarrow> string" where
  "posix_base f = rev (takeWhile (\<lambda>c. c \<noteq> CHR ''/'') (rev f))"

definition posix_dirname :: "string \<Rightarrow> string" where
  "posix_dirname f =
     (let d = rev (drop 1 (dropWhile (\<lambda>c. c \<noteq> CHR ''/'') (rev f))) in if d = [] then ''.'' else d)"

definition posix_extname :: "string \<Rightarrow> string" where
  "posix_extname f =
     (let b = posix_base f; e = rev (takeWhile (\<lambda>c. c \<noteq> CHR ''.'') (rev b))
      in if length e + 1 < length b then CHR ''.'' # e else [])"

definition posix_basename :: "string \<Rightarrow> string \<Rightarrow> string" where
  "posix_basename f e =
     (let b = posix_base f
      in if e \<noteq> [] \<and> length e < length b \<and> drop (length b - length e) b = e
         then take (length b - length e) b else b)"

definition env0 :: Platform where
  "env0 = \<lparr>Git = ''git'', GitBlame = ''gitblame'', decodeURIComponent = Inr,
            Uri_toString = (\<lambda>u. Uri.scheme u @ '':'' @ path u @ ''?'' @ query u),
            extname = posix_extname, dirname = posix_dirname, basename = posix_basename,
            formatDate = (\<lambda>d. ''Jan 1, 1970 12:01 am'')\<rparr>"

definition commit0 :: IGitCommit where
  "commit0 = \<lparr>IGitCommit.sha = ''a1b2c3d4'', fileName = ''src/file.txt'', IGitCommit.author = ''Alice'',
      date = Some 0, IGitCommit.lines = []\<rparr>"

definition commitHash :: IGitCommit where
  "commitHash = commit0\<lparr>fileName := ''C#/a.cs''\<rparr>"

definition blameNoCommit :: IGitBlame where
  "blameNoCommit = blame2\<lparr>commits := []\<rparr>"

definition blameNoAuthor :: IGitBlame where
  "blameNoAuthor = blame2\<lparr>authors := []\<rparr>"



definition runtime0 :: Runtime where
  "runtime0 =
     \<lparr>gitProvider = \<lparr>GitProvider.repoPath = ''/repo'', blames = [], subscription = True\<rparr>,
      promises = []\<rparr>"

definition inRepo :: "string \<Rightarrow> string \<Rightarrow> string" where
  "inRepo f rp = (if take (length rp + 1) f = rp @ ''/'' then drop (length rp + 1) f else f)"

definition events0 :: "event list" where
  "events0 =
     [Request ''a.ts'', BlameSettled 0 (Inr []), Request ''/repo/a.ts'', Request ''b.ts'',
      DidSaveTextDocument ''b.ts'', Request ''a.ts'']"

definition events1 :: "event list" where
  "events1 =
     [Request ''a.ts'', DidCloseTextDocument ''b.ts'', BlameSettled 0 (Inr []),
      Request ''/repo/a.ts'', Request ''b.ts'']"

definition noDate :: "string \<Rightarrow> number" where
  "noDate s = None"

definition runtime1 :: Runtime where
  "runtime1 = snd (getBlameForFile inRepo ''a.ts'' runtime0)"

definition enoent :: error where
  "enoent = Error ''spawn git ENOENT''"

section \<open>Properties of the matcher\<close>

declare rmatch.simps [simp del]

lemma rmatch_Star_mem:
  assumes "st' \<in> set (rmatch m (Star a) st)"
  shows "st' = st \<or> (\<exists>st1 \<in> set (rmatch m a st). length (rest st1) < length (rest st)
      \<and> st' \<in> set (rmatch m (Star a) st1))"
proof -
  have eq: "rmatch m (Star a) st =
     concat (map (\<lambda>st'. if length (rest st') < length (rest st) then rmatch m (Star a) st' else [])
               (rmatch m a st)) @ [st]"
    by (rule rmatch.simps)
  from assms show ?thesis unfolding eq by (auto split: if_splits)
qed

lemma rmatch_LazyStar_mem:
  assumes "st' \<in> set (rmatch m (LazyStar a) st)"
  shows "st' = st \<or> (\<exists>st1 \<in> set (rmatch m a st). length (rest st1) < length (rest st)
      \<and> st' \<in> set (rmatch m (LazyStar a) st1))"
proof -
  have eq: "rmatch m (LazyStar a) st =
     st # concat (map (\<lambda>st'. if length (rest st') < length (rest st)
                              then rmatch m (LazyStar a) st' else [])
                    (rmatch m a st))"
    by (rule rmatch.simps)
  from assms show ?thesis unfolding eq by (auto split: if_splits)
qed

lemma rmatch_Seq_mem:
  "st' \<in> set (rmatch m (Seq a b) st) \<longleftrightarrow> (\<exists>st1 \<in> set (rmatch m a st). st' \<in> set (rmatch m b st1))"
  by (auto simp: rmatch.simps)

lemma rmatch_Alt_mem:
  "st' \<in> set (rmatch m (Alt a b) st) \<longleftrightarrow> st' \<in> set (rmatch m a st) \<or> st' \<in> set (rmatch m b st)"
  by (simp add: rmatch.simps)

lemma rmatch_Opt_mem:
  "st' \<in> set (rmatch m (Opt a) st) \<longleftrightarrow>
     st' = st \<or> (st' \<in> set (rmatch m a st) \<and> length (rest st') < length (rest st))"
  by (auto simp: rmatch.simps)

lemma rmatch_Group_mem:
  "st' \<in> set (rmatch m (Group i a) st) \<longleftrightarrow>
     (\<exists>st1 \<in> set (rmatch m a st). st' = (fst st1, rest st1,
         (caps st1)[i := Some (take (length (rest st) - length (rest st1)) (rest st))]))"
  by (auto simp: rmatch.simps)

lemma rmatch_Lookahead_mem:
  "st' \<in> set (rmatch m (Lookahead a) st) \<Longrightarrow>
     \<exists>st1 \<in> set (rmatch m a st). st' = (fst st, rest st, caps st1)"
  by (cases "rmatch m a st") (auto simp: rmatch.simps)

lemma rest_simp [simp]: "rest (p, s, g) = s" by (simp add: rest_def)
lemma caps_simp [simp]: "caps (p, s, g) = g" by (simp add: caps_def)

lemma step1_minlen: "st' \<in> set (step1 P st) \<Longrightarrow> Suc (length (rest st')) \<le> length (rest st)"
  by (cases "rest st") (auto simp: step1_def split: if_splits)

lemma step1_caps: "st' \<in> set (step1 P st) \<Longrightarrow> caps st' = caps st"
  by (cases "rest st") (auto simp: step1_def split: if_splits)

lemma rmatch_minlen:
  "st' \<in> set (rmatch m r st) \<Longrightarrow> length (rest st') + minlen r \<le> length (rest st)"
proof (induction m r st arbitrary: st' rule: rmatch.induct)
  case (2 m c st)
  then show ?case using step1_minlen by (fastforce simp: rmatch.simps)
next
  case (3 m st)
  then show ?case using step1_minlen by (fastforce simp: rmatch.simps)
next
  case (4 m cs st)
  then show ?case using step1_minlen by (fastforce simp: rmatch.simps)
next
  case (14 m cs st)
  then show ?case using step1_minlen by (fastforce simp: rmatch.simps)
next
  case (7 m a b st)
  then obtain st1 where a: "st1 \<in> set (rmatch m a st)" and b: "st' \<in> set (rmatch m b st1)"
    by (auto simp: rmatch_Seq_mem)
  from "7.IH"(1)[OF a] "7.IH"(2)[OF a b] show ?case by simp
next
  case (8 m a b st)
  from "8.prems" have "st' \<in> set (rmatch m a st) \<or> st' \<in> set (rmatch m b st)" by (simp add: rmatch_Alt_mem)
  then show ?case using "8.IH" by fastforce
next
  case (9 m a st)
  from "9.prems" have "st' = st \<or> (\<exists>st1 \<in> set (rmatch m a st). length (rest st1) < length (rest st)
      \<and> st' \<in> set (rmatch m (Star a) st1))"
    by (rule rmatch_Star_mem)
  then show ?case
  proof
    assume "st' = st" then show ?thesis by simp
  next
    assume "\<exists>st1 \<in> set (rmatch m a st). length (rest st1) < length (rest st)
      \<and> st' \<in> set (rmatch m (Star a) st1)"
    then obtain st1 where a: "st1 \<in> set (rmatch m a st)" and l: "length (rest st1) < length (rest st)"
      and b: "st' \<in> set (rmatch m (Star a) st1)" by blast
    from "9.IH"(2)[OF a l b] l show ?thesis by simp
  qed
next
  case (10 m a st)
  from "10.prems" have "st' = st \<or> (\<exists>st1 \<in> set (rmatch m a st). length (rest st1) < length (rest st)
      \<and> st' \<in> set (rmatch m (LazyStar a) st1))"
    by (rule rmatch_LazyStar_mem)
  then show ?case
  proof
    assume "st' = st" then show ?thesis by simp
  next
    assume "\<exists>st1 \<in> set (rmatch m a st). length (rest st1) < length (rest st)
      \<and> st' \<in> set (rmatch m (LazyStar a) st1)"
    then obtain st1 where a: "st1 \<in> set (rmatch m a st)" and l: "length (rest st1) < length (rest st)"
      and b: "st' \<in> set (rmatch m (LazyStar a) st1)" by blast
    from "10.IH"(2)[OF a l b] l show ?thesis by simp
  qed
next
  case (11 m a st)
  from "11.prems" have "st' = st \<or> length (rest st') < length (rest st)" by (auto simp: rmatch_Opt_mem)
  then show ?case by auto
next
  case (12 m i a st)
  then obtain st1 where a: "st1 \<in> set (rmatch m a st)" and e: "rest st' = rest st1"
    by (auto simp: rmatch_Group_mem)
  from "12.IH"[OF a] e show ?case by simp
next
  case (13 m a st)
  from "13.prems" have "rest st' = rest st" by (auto dest: rmatch_Lookahead_mem)
  then show ?case by simp
qed (auto simp: rmatch.simps split: if_splits)

lemma keeps_refl: "keeps g g" by (simp add: keeps_def)
lemma keeps_trans: "keeps g g' \<Longrightarrow> keeps g' g'' \<Longrightarrow> keeps g g''" by (simp add: keeps_def)
lemma keeps_upd: "keeps g g' \<Longrightarrow> keeps g (g'[i := Some x])"
  unfolding keeps_def
proof (intro conjI allI impI)
  assume h: "length g' = length g \<and> (\<forall>i<length g. g ! i \<noteq> None \<longrightarrow> g' ! i \<noteq> None)"
  show "length (g'[i := Some x]) = length g" using h by simp
  fix j assume j: "j < length g" and n: "g ! j \<noteq> None"
  show "g'[i := Some x] ! j \<noteq> None"
  proof (cases "i = j")
    case True
    with j h show ?thesis by simp
  next
    case False
    with j n h show ?thesis by simp
  qed
qed

lemma rmatch_keeps:
  "st' \<in> set (rmatch m r st) \<Longrightarrow> keeps (caps st) (caps st')"
proof (induction m r st arbitrary: st' rule: rmatch.induct)
  case (2 m c st)
  then show ?case using step1_caps keeps_refl by (fastforce simp: rmatch.simps)
next
  case (3 m st)
  then show ?case using step1_caps keeps_refl by (fastforce simp: rmatch.simps)
next
  case (4 m cs st)
  then show ?case using step1_caps keeps_refl by (fastforce simp: rmatch.simps)
next
  case (14 m cs st)
  then show ?case using step1_caps keeps_refl by (fastforce simp: rmatch.simps)
next
  case (7 m a b st)
  then obtain st1 where a: "st1 \<in> set (rmatch m a st)" and b: "st' \<in> set (rmatch m b st1)"
    by (auto simp: rmatch_Seq_mem)
  from "7.IH"(1)[OF a] "7.IH"(2)[OF a b] show ?case by (rule keeps_trans)
next
  case (8 m a b st)
  from "8.prems" have "st' \<in> set (rmatch m a st) \<or> st' \<in> set (rmatch m b st)" by (simp add: rmatch_Alt_mem)
  then show ?case using "8.IH" by blast
next
  case (9 m a st)
  from "9.prems" have "st' = st \<or> (\<exists>st1 \<in> set (rmatch m a st). length (rest st1) < length (rest st)
      \<and> st' \<in> set (rmatch m (Star a) st1))"
    by (rule rmatch_Star_mem)
  then show ?case
  proof
    assume "st' = st" then show ?thesis by (simp add: keeps_refl)
  next
    assume "\<exists>st1 \<in> set (rmatch m a st). length (rest st1) < length (rest st)
      \<and> st' \<in> set (rmatch m (Star a) st1)"
    then obtain st1 where a: "st1 \<in> set (rmatch m a st)" and l: "length (rest st1) < length (rest st)"
      and b: "st' \<in> set (rmatch m (Star a) st1)" by blast
    from "9.IH"(1)[OF a] "9.IH"(2)[OF a l b] show ?thesis by (rule keeps_trans)
  qed
next
  case (10 m a st)
  from "10.prems" have "st' = st \<or> (\<exists>st1 \<in> set (rmatch m a st). length (rest st1) < length (rest st)
      \<and> st' \<in> set (rmatch m (LazyStar a) st1))"
    by (rule rmatch_LazyStar_mem)
  then show ?case
  proof
    assume "st' = st" then show ?thesis by (simp add: keeps_refl)
  next
    assume "\<exists>st1 \<in> set (rmatch m a st). length (rest st1) < length (rest st)
      \<and> st' \<in> set (rmatch m (LazyStar a) st1)"
    then obtain st1 where a: "st1 \<in> set (rmatch m a st)" and l: "length (rest st1) < length (rest st)"
      and b: "st' \<in> set (rmatch m (LazyStar a) st1)" by blast
    from "10.IH"(1)[OF a] "10.IH"(2)[OF a l b] show ?thesis by (rule keeps_trans)
  qed
next
  case (11 m a st)
  from "11.prems" have "st' = st \<or> st' \<in> set (rmatch m a st)" by (auto simp: rmatch_Opt_mem)
  then show ?case using "11.IH" keeps_refl by blast
next
  case (12 m i a st)
  then obtain st1 where a: "st1 \<in> set (rmatch m a st)"
    and e: "caps st' = (caps st1)[i := Some (take (length (rest st) - length (rest st1)) (rest st))]"
    by (auto simp: rmatch_Group_mem)
  from "12.IH"[OF a] e show ?case by (simp add: keeps_upd)
next
  case (13 m a st)
  from "13.prems" obtain st1 where a: "st1 \<in> set (rmatch m a st)" and e: "caps st' = caps st1"
    by (auto dest: rmatch_Lookahead_mem)
  from "13.IH"[OF a] e show ?case by simp
qed (auto split: if_splits simp: rmatch.simps keeps_refl)

lemma rmatch_mandatory:
  "st' \<in> set (rmatch m r st) \<Longrightarrow> i \<in> set (mandatory r) \<Longrightarrow> i < length (caps st) \<Longrightarrow>
   caps st' ! i \<noteq> None"
proof (induction m r st arbitrary: st' rule: rmatch.induct)
  case (7 m a b st)
  then obtain st1 where a: "st1 \<in> set (rmatch m a st)" and b: "st' \<in> set (rmatch m b st1)"
    by (auto simp: rmatch_Seq_mem)
  have k1: "keeps (caps st) (caps st1)" using a by (rule rmatch_keeps)
  have k2: "keeps (caps st1) (caps st')" using b by (rule rmatch_keeps)
  from "7.prems"(2) have "i \<in> set (mandatory a) \<or> i \<in> set (mandatory b)" by simp
  then show ?case
  proof
    assume "i \<in> set (mandatory a)"
    from "7.IH"(1)[OF a this "7.prems"(3)] k1 k2 "7.prems"(3) show ?thesis
      by (simp add: keeps_def)
  next
    assume ib: "i \<in> set (mandatory b)"
    from k1 "7.prems"(3) have "i < length (caps st1)" by (simp add: keeps_def)
    from "7.IH"(2)[OF a b ib this] show ?thesis .
  qed
next
  case (8 m a b st)
  from "8.prems"(2) have ia: "i \<in> set (mandatory a)" and ib: "i \<in> set (mandatory b)" by auto
  from "8.prems"(1) have "st' \<in> set (rmatch m a st) \<or> st' \<in> set (rmatch m b st)" by (simp add: rmatch_Alt_mem)
  then show ?case using "8.IH"(1)[OF _ ia "8.prems"(3)] "8.IH"(2)[OF _ ib "8.prems"(3)] by blast
next
  case (12 m j a st)
  then obtain st1 where a: "st1 \<in> set (rmatch m a st)"
    and e: "caps st' = (caps st1)[j := Some (take (length (rest st) - length (rest st1)) (rest st))]"
    by (auto simp: rmatch_Group_mem)
  have k1: "keeps (caps st) (caps st1)" using a by (rule rmatch_keeps)
  show ?case
  proof (cases "i = j")
    case True
    with e k1 "12.prems"(3) show ?thesis by (simp add: keeps_def)
  next
    case False
    with "12.prems"(2) have "i \<in> set (mandatory a)" by simp
    from "12.IH"[OF a this "12.prems"(3)] e False show ?thesis by simp
  qed
qed simp_all

declare exec_from.simps [simp del]
declare execLoop.simps [simp del]

lemma exec_from_Some:
  "exec_from m r n pre p s = Some x \<Longrightarrow>
     okMatch r n (fst (snd x)) \<and> length (snd (snd (snd x))) + minlen r \<le> length s"
proof (induction s arbitrary: pre p)
  case Nil
  show ?case
  proof (cases "rmatch m (Group 0 r) (p, [], replicate (Suc n) None)")
    case Nil
    with Nil.prems show ?thesis by (simp add: exec_from.simps)
  next
    case (Cons st sts)
    then have mem: "st \<in> set (rmatch m (Group 0 r) (p, [], replicate (Suc n) None))" by simp
    from Cons Nil.prems have x: "x = (rev pre, caps st, fst st, rest st)"
      by (simp add: exec_from.simps)
    from rmatch_minlen[OF mem] have l: "length (rest st) + minlen r \<le> 0" by simp
    from rmatch_keeps[OF mem] have k: "length (caps st) = Suc n" by (simp add: keeps_def)
    have "\<forall>i \<in> set (mandatory r). i \<le> n \<longrightarrow> caps st ! i \<noteq> None"
      using rmatch_mandatory[OF mem] by simp
    with x l k show ?thesis by (simp add: okMatch_def)
  qed
next
  case (Cons c s)
  show ?case
  proof (cases "rmatch m (Group 0 r) (p, c # s, replicate (Suc n) None)")
    case Nil
    with Cons.prems have "exec_from m r n (c # pre) (Some c) s = Some x"
      by (simp add: exec_from.simps[of m r n pre p "c # s"])
    from Cons.IH[OF this] show ?thesis by simp
  next
    case (Cons st sts)
    then have mem: "st \<in> set (rmatch m (Group 0 r) (p, c # s, replicate (Suc n) None))" by simp
    from Cons Cons.prems have x: "x = (rev pre, caps st, fst st, rest st)"
      by (simp add: exec_from.simps[of m r n pre p "c # s"])
    from rmatch_minlen[OF mem] have l: "length (rest st) + minlen r \<le> length (c # s)" by simp
    from rmatch_keeps[OF mem] have k: "length (caps st) = Suc n" by (simp add: keeps_def)
    have "\<forall>i \<in> set (mandatory r). i \<le> n \<longrightarrow> caps st ! i \<noteq> None"
      using rmatch_mandatory[OF mem] by simp
    with x l k show ?thesis by (simp add: okMatch_def)
  qed
qed

lemma execLoop_returns:
  "0 < minlen r \<Longrightarrow>
   (\<And>ma a. okMatch r n ma \<Longrightarrow> I a \<Longrightarrow> \<exists>a'. body ma a = Inr a' \<and> I a') \<Longrightarrow>
   I a \<Longrightarrow> \<exists>a'. execLoop m r n body p s a = Returns a' \<and> I a'"
proof (induction m r n body p s a rule: execLoop.induct)
  case (1 m r n body p s a)
  note pos = "1.prems"(1) and body = "1.prems"(2) and ia = "1.prems"(3)
  show ?case
  proof (cases "exec_from m r n [] p s")
    case None
    with ia show ?thesis by (simp add: execLoop.simps[of m r n body p s a])
  next
    case (Some x)
    from exec_from_Some[OF Some] have ok: "okMatch r n (fst (snd x))"
      and l: "length (snd (snd (snd x))) + minlen r \<le> length s" by simp_all
    from body[OF ok ia] obtain a' where b: "body (fst (snd x)) a = Inr a'" and i: "I a'"
      by blast
    from l pos have lt: "length (snd (snd (snd x))) < length s" by simp
    from "1.IH"[OF Some b lt pos body i] Some b lt show ?thesis
      by (simp add: execLoop.simps[of m r n body p s a])
  qed
qed

section \<open>Properties of the remote parser\<close>

lemma Map_get_Map_set: "Map_get (Map_set k v m) k' = (if k' = k then Some v else Map_get m k')"
  by (induction m) (auto simp: Map_get_def)

lemma urlRegex_mandatory: "9 \<in> set (mandatory urlRegex)"
  by (simp add: urlRegex_def seqs_def lit_def)

lemma remoteRegex_minlen: "0 < minlen remoteRegex"
  by (simp add: remoteRegex_def seqs_def sp_def)

lemma parseGitUrl_Inr: "\<exists>t. parseGitUrl u = Inr t"
proof (cases "RegExp_exec False urlRegex 9 u")
  case None
  then show ?thesis by (simp add: parseGitUrl_def)
next
  case (Some ma)
  then obtain x where x: "exec_from False urlRegex 9 [] None u = Some x" and ma: "ma = fst (snd x)"
    by (auto simp: RegExp_exec_def)
  from exec_from_Some[OF x] ma have "okMatch urlRegex 9 ma" by simp
  with urlRegex_mandatory have "length ma = 10" "ma ! 9 \<noteq> None"
    by (auto simp: okMatch_def)
  then obtain p where "grp ma 9 = Some p" by (auto simp: grp_def)
  with Some show ?thesis by (simp add: parseGitUrl_def)
qed

lemma linked_distinct:
  assumes "linked st"
  shows "distinct (map uniquenessKey (fst st))"
proof -
  have inj: "i = j" if i: "i < length (fst st)" and j: "j < length (fst st)"
      and e: "uniquenessKey (fst st ! i) = uniquenessKey (fst st ! j)" for i j
  proof -
    from assms i have a: "Map_get (snd st) (uniquenessKey (fst st ! i)) = Some i"
      unfolding linked_def by blast
    from assms j have b: "Map_get (snd st) (uniquenessKey (fst st ! j)) = Some j"
      unfolding linked_def by blast
    from a have "Map_get (snd st) (uniquenessKey (fst st ! j)) = Some i"
      by (simp only: e)
    with b have "Some i = Some j" by (simp only:)
    then show "i = j" by (simp only: option.inject)
  qed
  show ?thesis
    unfolding distinct_conv_nth
  proof (intro allI impI)
    fix i j
    assume a: "i < length (map uniquenessKey (fst st))" "j < length (map uniquenessKey (fst st))"
      "i \<noteq> j"
    from a have i: "i < length (fst st)" and j: "j < length (fst st)" by simp_all
    from inj[OF i j] a(3) have "uniquenessKey (fst st ! i) \<noteq> uniquenessKey (fst st ! j)" by blast
    with i j show "map uniquenessKey (fst st) ! i \<noteq> map uniquenessKey (fst st) ! j"
      by simp
  qed
qed

lemma linked_push:
  assumes l: "linked (rs, g)" and n: "Map_get g k = None" and u: "uniquenessKey r = k"
  shows "linked (rs @ [r], Map_set k (length rs) g)"
proof -
  have A: "i < length (rs @ [r]) \<and> uniquenessKey ((rs @ [r]) ! i) = k'"
    if a: "Map_get (Map_set k (length rs) g) k' = Some i" for k' i
  proof (cases "k' = k")
    case True
    with a have "i = length rs" by (simp add: Map_get_Map_set)
    with True u show ?thesis by simp
  next
    case False
    with a have "Map_get g k' = Some i" by (simp add: Map_get_Map_set)
    with l have "i < length rs" "uniquenessKey (rs ! i) = k'" by (simp_all add: linked_def)
    then show ?thesis by (simp add: nth_append)
  qed
  have B: "Map_get (Map_set k (length rs) g) (uniquenessKey ((rs @ [r]) ! i)) = Some i"
    if a: "i < length (rs @ [r])" for i
  proof (cases "i < length rs")
    case True
    with l have g: "Map_get g (uniquenessKey (rs ! i)) = Some i" by (simp add: linked_def)
    have "uniquenessKey (rs ! i) \<noteq> k"
    proof
      assume "uniquenessKey (rs ! i) = k"
      with g have "Map_get g k = Some i" by (simp only:)
      with n show False by (simp only: option.distinct)
    qed
    with g True show ?thesis by (simp add: Map_get_Map_set nth_append)
  next
    case False
    with a have "i = length rs" by simp
    with u show ?thesis by (simp add: Map_get_Map_set)
  qed
  from A B show ?thesis unfolding linked_def fst_conv snd_conv by blast
qed

lemma linked_update:
  assumes l: "linked (rs, g)" and u: "uniquenessKey r = uniquenessKey (rs ! i)"
  shows "linked (rs[i := r], g)"
proof -
  have A: "j < length (rs[i := r]) \<and> uniquenessKey (rs[i := r] ! j) = k"
    if a: "Map_get g k = Some j" for k j
  proof -
    from a l have "j < length rs" "uniquenessKey (rs ! j) = k" by (simp_all add: linked_def)
    with u show ?thesis by (cases "i = j") simp_all
  qed
  have B: "Map_get g (uniquenessKey (rs[i := r] ! j)) = Some j"
    if a: "j < length (rs[i := r])" for j
  proof -
    from a have j: "j < length rs" by simp
    with l have "Map_get g (uniquenessKey (rs ! j)) = Some j" by (simp add: linked_def)
    with u j show ?thesis by (cases "i = j") simp_all
  qed
  from A B show ?thesis unfolding linked_def fst_conv snd_conv by blast
qed

declare execAll.simps [simp del]

lemma execLoop_forEach:
  "0 < minlen r \<Longrightarrow>
   execLoop m r n body p s a =
     (case forEach body (execAll m r n p s) a of Inl e \<Rightarrow> Throws e | Inr a' \<Rightarrow> Returns a')"
proof (induction m r n body p s a rule: execLoop.induct)
  case (1 m r n body p s a)
  show ?case
  proof (cases "exec_from m r n [] p s")
    case None
    then show ?thesis
      by (simp add: execLoop.simps[of m r n body p s a] execAll.simps[of m r n p s])
  next
    case (Some x)
    from exec_from_Some[OF Some] "1.prems"
    have lt: "length (snd (snd (snd x))) < length s" by simp
    show ?thesis
    proof (cases "body (fst (snd x)) a")
      case (Inl e)
      with Some lt show ?thesis
        by (simp add: execLoop.simps[of m r n body p s a] execAll.simps[of m r n p s])
    next
      case (Inr a')
      from "1.IH"[OF Some Inr lt "1.prems"] Some Inr lt show ?thesis
        by (simp add: execLoop.simps[of m r n body p s a] execAll.simps[of m r n p s])
    qed
  qed
qed

lemma filter_key_none: "k \<notin> set (map f xs) \<Longrightarrow> filter (\<lambda>x. f x = k) xs = []"
  by (induction xs) auto

lemma parseMatch_cases:
  obtains (fresh) r where "Map_get (snd st) (entryKey ma) = None"
      "parseMatch rp pf ma st
       = Inr (fst st @ [r], Map_set (entryKey ma) (length (fst st)) (snd st))"
      "uniquenessKey r = entryKey ma" "types r = [entryType ma]"
  | (known) i where "Map_get (snd st) (entryKey ma) = Some i"
      "parseMatch rp pf ma st
       = Inr ((fst st)[i := (fst st ! i)\<lparr>types := types (fst st ! i) @ [entryType ma]\<rparr>], snd st)"
proof -
  obtain t where "parseGitUrl (entryUrl ma) = Inr t"
    using parseGitUrl_Inr by blast
  then obtain sch dm pth where u: "parseGitUrl (entryUrl ma) = Inr (sch, dm, pth)"
    by (cases t) auto
  then have k: "entryKey ma = ToString dm @ ''/'' @ pth" by (simp add: entryKey_def)
  from u have u': "parseGitUrl (substr1 ('' '' @ ToString (grp ma 2))) = Inr (sch, dm, pth)"
    by (simp add: entryUrl_def)
  show ?thesis
  proof (cases "Map_get (snd st) (entryKey ma)")
    case None
    let ?r = "\<lparr>GitRemote.repoPath = rp, uniquenessKey = entryKey ma,
                GitRemote.name = substr1 ('' '' @ ToString (grp ma 1)), scheme = sch,
                GitRemote.domain =
                  (case pf dm pth of None \<Rightarrow> dm | Some pr \<Rightarrow> Some (RemoteProvider.domain pr)),
                GitRemote.path =
                  (case pf dm pth of None \<Rightarrow> pth | Some pr \<Rightarrow> RemoteProvider.path pr),
                provider = pf dm pth,
                types = [entryType ma]\<rparr>"
    have "parseMatch rp pf ma st
          = Inr (fst st @ [?r], Map_set (entryKey ma) (length (fst st)) (snd st))"
      using u' None
      by (simp add: parseMatch_def Let_def entryType_def entryUrl_def k)
    with None show ?thesis by (intro fresh[of ?r]) simp_all
  next
    case (Some i)
    have "parseMatch rp pf ma st
       = Inr ((fst st)[i := (fst st ! i)\<lparr>types := types (fst st ! i) @ [entryType ma]\<rparr>], snd st)"
      using u' Some
      by (simp add: parseMatch_def Let_def entryType_def entryUrl_def k)
    with Some show ?thesis by (intro known[of i])
  qed
qed

lemma parseMatch_merged:
  assumes mg: "merged ms st"
  shows "\<exists>st'. parseMatch rp pf ma st = Inr st' \<and> merged (ms @ [ma]) st'"
proof -
  let ?rs = "fst st" and ?g = "snd st" and ?k = "entryKey ma"
  from mg have l: "linked (?rs, ?g)"
    and ks: "set (map uniquenessKey ?rs) = set (map entryKey ms)"
    and ts: "\<And>i. i < length ?rs \<Longrightarrow>
               types (?rs ! i) = map entryType (filter (\<lambda>x. entryKey x = uniquenessKey (?rs ! i)) ms)"
    by (simp_all add: merged_def)
  from l have l1: "\<And>k i. Map_get ?g k = Some i \<Longrightarrow> i < length ?rs \<and> uniquenessKey (?rs ! i) = k"
    and l2: "\<And>i. i < length ?rs \<Longrightarrow> Map_get ?g (uniquenessKey (?rs ! i)) = Some i"
    by (simp_all add: linked_def)
  show ?thesis
  proof (cases rule: parseMatch_cases[of st ma rp pf])
    case (fresh r)
    have nk: "uniquenessKey (?rs ! i) \<noteq> ?k" if "i < length ?rs" for i
    proof
      assume "uniquenessKey (?rs ! i) = ?k"
      with l2[OF that] have "Map_get ?g ?k = Some i" by (simp only:)
      with fresh(1) show False by (simp only: option.distinct)
    qed
    have nr: "?k \<notin> set (map uniquenessKey ?rs)"
    proof
      assume "?k \<in> set (map uniquenessKey ?rs)"
      then obtain i where "i < length ?rs" "uniquenessKey (?rs ! i) = ?k"
        by (auto simp: in_set_conv_nth)
      with nk show False by blast
    qed
    have "?k \<notin> set (map entryKey ms)"
      using nr by (simp only: ks[symmetric] not_False_eq_True)
    then have none: "filter (\<lambda>x. entryKey x = ?k) ms = []"
      by (rule filter_key_none)
    have L: "linked (?rs @ [r], Map_set ?k (length ?rs) ?g)"
      by (rule linked_push[OF l fresh(1) fresh(3)])
    have K: "set (map uniquenessKey (?rs @ [r])) = set (map entryKey (ms @ [ma]))"
      using ks fresh(3) by simp
    have T: "types ((?rs @ [r]) ! i)
             = map entryType (filter (\<lambda>x. entryKey x = uniquenessKey ((?rs @ [r]) ! i)) (ms @ [ma]))"
      if "i < length (?rs @ [r])" for i
    proof (cases "i < length ?rs")
      case True
      from nk[OF True] have "entryKey ma \<noteq> uniquenessKey (?rs ! i)" by (rule not_sym)
      with ts[OF True] True show ?thesis by (simp add: nth_append)
    next
      case False
      with that have "i = length ?rs" by simp
      with fresh(3) fresh(4) none show ?thesis by simp
    qed
    from L K T have "merged (ms @ [ma]) (?rs @ [r], Map_set ?k (length ?rs) ?g)"
      unfolding merged_def fst_conv snd_conv by blast
    with fresh(2) show ?thesis by blast
  next
    case (known i)
    let ?r = "(?rs ! i)\<lparr>types := types (?rs ! i) @ [entryType ma]\<rparr>"
    from l1[OF known(1)] have i: "i < length ?rs" and ki: "uniquenessKey (?rs ! i) = ?k"
      by simp_all
    have L: "linked (?rs[i := ?r], ?g)"
      by (rule linked_update[OF l]) simp
    have U: "uniquenessKey (?rs[i := ?r] ! j) = uniquenessKey (?rs ! j)" if "j < length ?rs" for j
      using that by (cases "i = j") simp_all
    have "map uniquenessKey (?rs[i := ?r]) = map uniquenessKey ?rs"
      by (rule nth_equalityI) (simp_all add: U)
    moreover have "?k \<in> set (map uniquenessKey ?rs)"
    proof -
      from i have "?rs ! i \<in> set ?rs" by (rule nth_mem)
      then have "uniquenessKey (?rs ! i) \<in> uniquenessKey ` set ?rs" by (rule imageI)
      with ki show ?thesis by simp
    qed
    ultimately have K: "set (map uniquenessKey (?rs[i := ?r])) = set (map entryKey (ms @ [ma]))"
      using ks by auto
    have T: "types (?rs[i := ?r] ! j)
             = map entryType (filter (\<lambda>x. entryKey x = uniquenessKey (?rs[i := ?r] ! j)) (ms @ [ma]))"
      if "j < length (?rs[i := ?r])" for j
    proof (cases "i = j")
      case True
      with i ki ts[OF i] show ?thesis by simp
    next
      case False
      from that have j: "j < length ?rs" by simp
      have "uniquenessKey (?rs ! j) \<noteq> ?k"
      proof
        assume "uniquenessKey (?rs ! j) = ?k"
        with l2[OF j] have "Map_get ?g ?k = Some j" by (simp only:)
        with known(1) have "Some i = Some j" by (simp only:)
        with False show False by simp
      qed
      then have "entryKey ma \<noteq> uniquenessKey (?rs ! j)" by (rule not_sym)
      with ts[OF j] False j show ?thesis by simp
    qed
    from L K T have "merged (ms @ [ma]) (?rs[i := ?r], ?g)"
      unfolding merged_def fst_conv snd_conv by blast
    with known(2) show ?thesis by blast
  qed
qed

lemma forEach_merged:
  "merged ms st \<Longrightarrow> \<exists>st'. forEach (parseMatch rp pf) xs st = Inr st' \<and> merged (ms @ xs) st'"
proof (induction xs arbitrary: ms st)
  case Nil
  then show ?case by simp
next
  case (Cons x xs)
  from parseMatch_merged[OF Cons.prems, of rp pf x] obtain st1 where
    s: "parseMatch rp pf x st = Inr st1" and m1: "merged (ms @ [x]) st1" by blast
  from Cons.IH[OF m1] s show ?case by simp
qed

lemma merged_init: "merged [] ([], [])"
  by (simp add: merged_def linked_def Map_get_def)

lemma parse_merged:
  "\<exists>st. merged (remoteLines data lastIndex) st
        \<and> parse data rp pf lastIndex = Returns (fst st)"
proof (cases "data = [] \<or> length data < lastIndex")
  case True
  then have r: "remoteLines data lastIndex = []" by (simp add: remoteLines_def)
  from True have "parse data rp pf lastIndex = Returns (fst (([], []) :: GitRemote list \<times> (string, nat) Map))"
    by (auto simp: parse_def)
  moreover have "merged (remoteLines data lastIndex) ([], [])"
    unfolding r by (rule merged_init)
  ultimately show ?thesis by blast
next
  case False
  let ?ms = "execAll True remoteRegex 3 (charBefore data lastIndex) (drop lastIndex data)"
  from forEach_merged[OF merged_init, of rp pf ?ms] obtain st where
    f: "forEach (parseMatch rp pf) ?ms ([], []) = Inr st" and m: "merged ?ms st"
    by auto
  from f have "execLoop True remoteRegex 3 (parseMatch rp pf) (charBefore data lastIndex)
                 (drop lastIndex data) ([], []) = Returns st"
    by (simp add: execLoop_forEach[OF remoteRegex_minlen])
  with False have "parse data rp pf lastIndex = Returns (fst st)"
    by (cases "fst st") (simp_all add: parse_def)
  moreover from False have "remoteLines data lastIndex = ?ms" by (simp add: remoteLines_def)
  with m have "merged (remoteLines data lastIndex) st" by (simp only:)
  ultimately show ?thesis by blast
qed

text \<open>
  C8. For the URL \<open>git@host.xz:user/project.git\<close> the third alternative of
  \<open>urlRegex\<close> matches and none of the scheme groups takes part in the match: the
  scheme that \<open>parseGitUrl\<close> returns is \<open>undefined\<close>, where the declared type of
  the result has a string and the branch for a URL that does not match returns the
  empty string. The domain is \<open>host.xz\<close> and the path is \<open>user/project\<close>, a
  trailing \<open>.git\<close> or \<open>.git/\<close> being stripped.
\<close>

theorem parseGitUrl_git_at:
  "parseGitUrl ''git@host.xz:user/project.git'' = Inr (None, Some ''host.xz'', ''user/project'')
   \<and> parseGitUrl ''git@host.xz:user/project.git/'' = Inr (None, Some ''host.xz'', ''user/project'')
   \<and> parseGitUrl ''host.xz'' = Inr (Some [], Some [], [])"
  by code_simp

text \<open>
  C9. For every remote listing, and wherever the scan starts, \<open>parse\<close> returns; no two
  of the remotes it returns have the same \<open>uniquenessKey\<close>; their keys are the keys
  of the lines that match; and the \<open>types\<close> of a remote are the entries of all the
  matching lines of its key, whatever their names and kinds, in the order of the lines.
  For the listing of one URL as \<open>fetch\<close> and as \<open>push\<close> it returns one remote, with
  the key \<open>github.com/user/repo\<close> and two entries in \<open>types\<close>, whatever the provider
  factory answers.
\<close>

theorem parse_unique_keys:
  "(\<exists>rs. parse data rp pf lastIndex = Returns rs
        \<and> distinct (map uniquenessKey rs)
        \<and> set (map uniquenessKey rs) = set (map entryKey (remoteLines data lastIndex))
        \<and> list_all (\<lambda>r. types r
                          = map entryType
                              (filter (\<lambda>ma. entryKey ma = uniquenessKey r)
                                 (remoteLines data lastIndex))) rs)
   \<and> (\<exists>r. parse listing2 rp' pf' 0 = Returns [r] \<and> uniquenessKey r = ''github.com/user/repo''
            \<and> length (types r) = 2)"
proof
  from parse_merged[of data lastIndex rp pf] obtain st where
    m: "merged (remoteLines data lastIndex) st"
    and p: "parse data rp pf lastIndex = Returns (fst st)" by blast
  from m have l: "linked st"
    and k: "set (map uniquenessKey (fst st)) = set (map entryKey (remoteLines data lastIndex))"
    and t: "\<forall>i < length (fst st).
              types (fst st ! i)
              = map entryType (filter (\<lambda>ma. entryKey ma = uniquenessKey (fst st ! i))
                                 (remoteLines data lastIndex))"
    by (simp_all add: merged_def)
  from t have "list_all (\<lambda>r. types r
                          = map entryType
                              (filter (\<lambda>ma. entryKey ma = uniquenessKey r)
                                 (remoteLines data lastIndex))) (fst st)"
    by (simp add: list_all_length)
  with p k linked_distinct[OF l]
  show "\<exists>rs. parse data rp pf lastIndex = Returns rs
        \<and> distinct (map uniquenessKey rs)
        \<and> set (map uniquenessKey rs) = set (map entryKey (remoteLines data lastIndex))
        \<and> list_all (\<lambda>r. types r
                          = map entryType
                              (filter (\<lambda>ma. entryKey ma = uniquenessKey r)
                                 (remoteLines data lastIndex))) rs"
    by blast
  have "parse listing2 rp' pf' 0 = Returns
    [\<lparr>GitRemote.repoPath = rp', uniquenessKey = ''github.com/user/repo'', GitRemote.name = ''origin'',
      scheme = Some ''https://'',
      GitRemote.domain = (case pf' (Some ''github.com'') ''user/repo'' of
                            None \<Rightarrow> Some ''github.com''
                          | Some pr \<Rightarrow> Some (RemoteProvider.domain pr)),
      GitRemote.path = (case pf' (Some ''github.com'') ''user/repo'' of
                          None \<Rightarrow> ''user/repo''
                        | Some pr \<Rightarrow> RemoteProvider.path pr),
      provider = pf' (Some ''github.com'') ''user/repo'',
      types = [\<lparr>url = ''https://github.com/user/repo.git'', type = ''fetch''\<rparr>,
               \<lparr>url = ''https://github.com/user/repo.git'', type = ''push''\<rparr>]\<rparr>]"
    by code_simp
  then show "\<exists>r. parse listing2 rp' pf' 0 = Returns [r] \<and> uniquenessKey r = ''github.com/user/repo''
            \<and> length (types r) = 2"
    by simp
qed

text \<open>
  Three lines, two of one repository under two names and two forms of its URL: the
  remote of the first line gets the entry of the second. When the scan starts inside
  the first line, that line is not seen.
\<close>

lemma remoteLines_listing3:
  "map entryKey (remoteLines listing3 0)
   = [''github.com/user/repo'', ''github.com/user/repo'', ''gitlab.com/me/repo'']
   \<and> map entryType (remoteLines listing3 0)
     = [\<lparr>url = ''https://github.com/user/repo.git'', type = ''fetch''\<rparr>,
        \<lparr>url = ''git@github.com:user/repo'', type = ''push''\<rparr>,
        \<lparr>url = ''https://gitlab.com/me/repo.git'', type = ''fetch''\<rparr>]"
  by code_simp

lemma parse_listing3:
  "parse listing3 ''/repo'' noProvider 0 = Returns
     [\<lparr>GitRemote.repoPath = ''/repo'', uniquenessKey = ''github.com/user/repo'',
       GitRemote.name = ''origin'', scheme = Some ''https://'',
       GitRemote.domain = Some ''github.com'', GitRemote.path = ''user/repo'', provider = None,
       types = [\<lparr>url = ''https://github.com/user/repo.git'', type = ''fetch''\<rparr>,
                \<lparr>url = ''git@github.com:user/repo'', type = ''push''\<rparr>]\<rparr>,
      \<lparr>GitRemote.repoPath = ''/repo'', uniquenessKey = ''gitlab.com/me/repo'',
       GitRemote.name = ''fork'', scheme = Some ''https://'',
       GitRemote.domain = Some ''gitlab.com'', GitRemote.path = ''me/repo'', provider = None,
       types = [\<lparr>url = ''https://gitlab.com/me/repo.git'', type = ''fetch''\<rparr>]\<rparr>]
   \<and> parse listing3 ''/repo'' noProvider 5 = Returns
     [\<lparr>GitRemote.repoPath = ''/repo'', uniquenessKey = ''github.com/user/repo'',
       GitRemote.name = ''upstream'', scheme = None,
       GitRemote.domain = Some ''github.com'', GitRemote.path = ''user/repo'', provider = None,
       types = [\<lparr>url = ''git@github.com:user/repo'', type = ''push''\<rparr>]\<rparr>,
      \<lparr>GitRemote.repoPath = ''/repo'', uniquenessKey = ''gitlab.com/me/repo'',
       GitRemote.name = ''fork'', scheme = Some ''https://'',
       GitRemote.domain = Some ''gitlab.com'', GitRemote.path = ''me/repo'', provider = None,
       types = [\<lparr>url = ''https://gitlab.com/me/repo.git'', type = ''fetch''\<rparr>]\<rparr>]"
  by code_simp

section \<open>Line lookup\<close>

text \<open>
  C6. \<open>getBlameForLine\<close> has no error of its own for a key that is missing. When the
  sha of the line has no entry in \<open>commits\<close>, reading \<open>author\<close> of \<open>undefined\<close>
  throws a \<open>TypeError\<close>. When the author of the commit has no entry in \<open>authors\<close>,
  nothing is thrown: \<open>Object.assign\<close> skips the \<open>undefined\<close> source, and the call
  returns the line and the commit with an author that has a \<open>lineCount\<close> (the number
  of lines of the commit) and no name.
\<close>

theorem getBlameForLine_unresolved:
  assumes "Array_get (IGitBlame.lines blame) ln = Some l"
  shows "(Map_get (commits blame) (IGitCommitLine.sha l) = None \<longrightarrow>
            getBlameForLine blame ln = Inl TypeError)
       \<and> (\<forall>c. Map_get (commits blame) (IGitCommitLine.sha l) = Some c \<longrightarrow>
              Map_get (authors blame) (IGitCommit.author c) = None \<longrightarrow>
              getBlameForLine blame ln =
                Inr \<lparr>IGitBlameLine.author =
                       \<lparr>AssignedAuthor.name = None,
                        AssignedAuthor.lineCount = length (IGitCommit.lines c)\<rparr>,
                     commit = c, IGitBlameLine.line = l\<rparr>)"
  using assms by (simp add: getBlameForLine_def Object_assign_lineCount_def)

theorem getBlameForLine_unresolved_witness:
  "Array_get (IGitBlame.lines blameNoCommit) 0 = Some (hd (IGitBlame.lines blame2))
   \<and> Map_get (commits blameNoCommit) (IGitCommitLine.sha (hd (IGitBlame.lines blame2))) = None
   \<and> getBlameForLine blameNoCommit 0 = Inl TypeError"
proof -
  have a: "Array_get (IGitBlame.lines blameNoCommit) 0 = Some (hd (IGitBlame.lines blame2))"
    by (simp add: blameNoCommit_def blame2_def Array_get_def)
  have b: "Map_get (commits blameNoCommit) (IGitCommitLine.sha (hd (IGitBlame.lines blame2))) = None"
    by (simp add: blameNoCommit_def Map_get_def)
  from getBlameForLine_unresolved [OF a] b a show ?thesis by blast
qed

text \<open>
  A model whose commit names an author that \<open>authors\<close> does not hold: the lookup
  returns a result.
\<close>

theorem getBlameForLine_missing_author_counterexample:
  "Map_get (commits blameNoAuthor) ''a1b2c3d4'' \<noteq> None
   \<and> Map_get (authors blameNoAuthor) ''Alice'' = None
   \<and> (\<exists>r. getBlameForLine blameNoAuthor 0 = Inr r
          \<and> IGitCommit.author (commit r) = ''Alice''
          \<and> AssignedAuthor.name (IGitBlameLine.author r) = None
          \<and> AssignedAuthor.lineCount (IGitBlameLine.author r) = 2)"
  by (simp add: blameNoAuthor_def blame2_def getBlameForLine_def Array_get_def Map_get_def
      Object_assign_lineCount_def)

section \<open>The identifier codec\<close>

text \<open>
  C10. The payload of an identifier holds the file name of the commit under \<open>fileName\<close>,
  then \<open>sha\<close> and \<open>index\<close>; an original file name that is supplied (the code tests
  its truth value, so a non-empty string) is held under \<open>originalFileName\<close> and nowhere
  else, and without one the payload has no such property. The ranged payload adds
  \<open>range\<close> last.
\<close>

theorem toGitUriData_fields:
  "private_toGitUriData c i ofn =
     [(''fileName'', JString (IGitCommit.fileName c)), (''sha'', JString (IGitCommit.sha c)),
      (''index'', JNumber i)]
     @ (if truthy ofn then [(''originalFileName'', JString (ToString ofn))] else [])
   \<and> private_toGitBlameUriData c i rng ofn =
     [(''fileName'', JString (IGitCommit.fileName c)), (''sha'', JString (IGitCommit.sha c)),
      (''index'', JNumber i)]
     @ (if truthy ofn then [(''originalFileName'', JString (ToString ofn))] else [])
     @ [(''range'', JRange rng)]"
  by (simp add: private_toGitUriData_def private_toGitBlameUriData_def)




text \<open>
  C1. The identifier is the text \<open>scheme:label?payload\<close>, parsed by \<open>Uri.parse\<close>;
  label and payload enter it as they are. For a commit whose file name holds a \<open>#\<close>
  the text has a fragment from there on, the query of the parsed identifier is not the
  text of the payload, and the decoder throws a \<open>SyntaxError\<close> instead of returning the
  payload.
\<close>

theorem toGitUri_hash_not_decodable:
  "andThen (toGitUri env0 commitHash 1 1 None) (fromGitUri env0) = Inl SyntaxError"
  by code_simp

section \<open>Range projection\<close>

text \<open>
  C4. Projecting a model over the range that starts at line 0 and ends at the last
  line index of the model returns the model itself.
\<close>

theorem getBlameForRange_full:
  assumes "Position.line (start rng) = 0"
    and "int (Position.line (end' rng)) = int (length (IGitBlame.lines blame)) - 1"
  shows "getBlameForRange blame rng = blame"
  using assms by (simp add: getBlameForRange_def)

theorem getBlameForRange_full_witness:
  "Position.line (start range01) = 0
   \<and> int (Position.line (end' range01)) = int (length (IGitBlame.lines blame2)) - 1
   \<and> getBlameForRange blame2 range01 = blame2"
proof -
  have a: "Position.line (start range01) = 0"
    by (simp add: range01_def)
  have b: "int (Position.line (end' range01)) = int (length (IGitBlame.lines blame2)) - 1"
    by (simp add: range01_def blame2_def)
  from a b getBlameForRange_full [OF a b] show ?thesis by simp
qed

section \<open>Properties of maps and of sorting\<close>

lemma Map_get_None: "Map_get m k = None \<longleftrightarrow> k \<notin> fst ` set m"
  by (simp add: Map_get_def map_of_eq_None_iff)

lemma Map_set_keys:
  "map fst (Map_set k v m) = (if k \<in> fst ` set m then map fst m else map fst m @ [k])"
  by (induction m) auto

lemma Map_set_fresh: "k \<notin> fst ` set m \<Longrightarrow> Map_set k v m = m @ [(k, v)]"
  by (induction m) auto

lemma Map_set_distinct: "distinct (map fst m) \<Longrightarrow> distinct (map fst (Map_set k v m))"
  by (simp add: Map_set_keys)

lemma Map_set_subset: "set (Map_set k v m) \<subseteq> insert (k, v) (set m)"
  by (induction m) auto

lemma Map_get_mem: "Map_get m k = Some v \<Longrightarrow> (k, v) \<in> set m"
  by (simp add: Map_get_def map_of_SomeD)

lemma Map_set_sum_fresh:
  fixes f :: "'v \<Rightarrow> nat"
  shows "Map_get m k = None \<Longrightarrow>
    sum_list (map f (Map_values (Map_set k v m))) = sum_list (map f (Map_values m)) + f v"
  by (simp add: Map_get_None Map_set_fresh Map_values_def)

lemma Map_set_sum_present:
  fixes f :: "'v \<Rightarrow> nat"
  shows "Map_get m k = Some w \<Longrightarrow>
    sum_list (map f (Map_values (Map_set k v m))) + f w = sum_list (map f (Map_values m)) + f v"
proof (induction m)
  case Nil
  then show ?case by (simp add: Map_get_def)
next
  case (Cons p m)
  show ?case
  proof (cases "fst p = k")
    case True
    with Cons.prems have "snd p = w" by (simp add: Map_get_def)
    with True show ?thesis by (simp add: Map_values_def)
  next
    case False
    with Cons.prems have "Map_get m k = Some w" by (simp add: Map_get_def)
    from Cons.IH[OF this] False show ?thesis by (simp add: Map_values_def)
  qed
qed

lemma Array_insort_sum:
  fixes f :: "'a \<Rightarrow> nat"
  shows "sum_list (map f (Array_insort cmp x ys)) = f x + sum_list (map f ys)"
  by (induction ys) auto

lemma Array_sort_sum:
  fixes f :: "'a \<Rightarrow> nat"
  shows "sum_list (map f (Array_sort cmp xs)) = sum_list (map f xs)"
  by (induction xs) (simp_all add: Array_sort_def Array_insort_sum)

lemma Array_insort_set: "set (Array_insort cmp x ys) = insert x (set ys)"
  by (induction ys) auto

lemma Array_insort_distinct:
  "distinct (map g (Array_insort cmp x ys)) \<longleftrightarrow> g x \<notin> g ` set ys \<and> distinct (map g ys)"
  by (induction ys) (auto simp: Array_insort_set)

lemma Array_sort_set: "set (Array_sort cmp xs) = set xs"
  by (induction xs) (simp_all add: Array_sort_def Array_insort_set)

lemma Array_sort_distinct: "distinct (map g (Array_sort cmp xs)) \<longleftrightarrow> distinct (map g xs)"
proof (induction xs)
  case Nil
  then show ?case by (simp add: Array_sort_def)
next
  case (Cons x xs)
  have "Array_sort cmp (x # xs) = Array_insort cmp x (Array_sort cmp xs)"
    by (simp add: Array_sort_def)
  then show ?case using Cons by (simp add: Array_insort_distinct Array_sort_set)
qed

lemma fold_Map_set_distinct:
  "distinct (map g xs) \<Longrightarrow> g ` set xs \<inter> fst ` set acc = {} \<Longrightarrow>
   fold (\<lambda>a m. Map_set (g a) a m) xs acc = acc @ map (\<lambda>a. (g a, a)) xs"
proof (induction xs arbitrary: acc)
  case Nil
  then show ?case by simp
next
  case (Cons x xs)
  from Cons.prems have fresh: "g x \<notin> fst ` set acc" by auto
  then have step: "Map_set (g x) x acc = acc @ [(g x, x)]" by (rule Map_set_fresh)
  from Cons.prems have d: "distinct (map g xs)" and nx: "g x \<notin> g ` set xs" by auto
  from Cons.prems nx have disj: "g ` set xs \<inter> fst ` set (acc @ [(g x, x)]) = {}" by auto
  from Cons.IH[OF d disj] step show ?case by simp
qed

lemma sorted_values:
  assumes "distinct (map g xs)"
  shows "Map_values (fold (\<lambda>a m. Map_set (g a) a m) (Array_sort cmp xs) []) = Array_sort cmp xs"
proof -
  from assms have "distinct (map g (Array_sort cmp xs))" by (simp add: Array_sort_distinct)
  then have "fold (\<lambda>a m. Map_set (g a) a m) (Array_sort cmp xs) []
      = [] @ map (\<lambda>a. (g a, a)) (Array_sort cmp xs)"
    by (rule fold_Map_set_distinct) simp
  then show ?thesis by (simp add: Map_values_def comp_def)
qed

section \<open>Properties of the blame of a file\<close>

lemma blameMatcher_minlen: "0 < minlen blameMatcher"
  by code_simp

lemma blameMatcher_mandatory: "{1, 2, 4} \<subseteq> set (mandatory blameMatcher)"
  by code_simp

lemma okMatch_blame:
  assumes "okMatch blameMatcher 7 m"
  shows "\<exists>m4 sh m2. grp m 4 = Some m4 \<and> grp m 1 = Some sh \<and> grp m 2 = Some m2"
proof -
  from assms have len: "length m = 8" by (simp add: okMatch_def)
  from assms blameMatcher_mandatory have "m ! 1 \<noteq> None" "m ! 2 \<noteq> None" "m ! 4 \<noteq> None"
    unfolding okMatch_def by auto
  with len show ?thesis by (auto simp: grp_def)
qed

lemma authors_enter:
  fixes a :: string
  assumes ok: "authorsOk as" and z: "list_all (\<lambda>p. IGitAuthor.lineCount (snd p) = 0) as"
  defines "as' \<equiv> (case Map_get as a of
                     None \<Rightarrow> Map_set a \<lparr>IGitAuthor.name = a, IGitAuthor.lineCount = 0\<rparr> as
                   | Some x \<Rightarrow> as)"
  shows "authorsOk as'" and "list_all (\<lambda>p. IGitAuthor.lineCount (snd p) = 0) as'"
    and "Map_get as' a \<noteq> None" and "\<And>k. Map_get as k \<noteq> None \<Longrightarrow> Map_get as' k \<noteq> None"
proof -
  show "authorsOk as'"
  proof (cases "Map_get as a")
    case None
    then have "a \<notin> fst ` set as" by (simp add: Map_get_None)
    from Map_set_fresh[OF this] None
    have "as' = as @ [(a, \<lparr>IGitAuthor.name = a, IGitAuthor.lineCount = 0\<rparr>)]"
      by (simp add: as'_def)
    with ok None show ?thesis by (simp add: authorsOk_def Map_get_None)
  next
    case (Some x)
    with ok show ?thesis by (simp add: as'_def)
  qed
  show "list_all (\<lambda>p. IGitAuthor.lineCount (snd p) = 0) as'"
  proof (cases "Map_get as a")
    case None
    then have "a \<notin> fst ` set as" by (simp add: Map_get_None)
    from Map_set_fresh[OF this] None
    have "as' = as @ [(a, \<lparr>IGitAuthor.name = a, IGitAuthor.lineCount = 0\<rparr>)]"
      by (simp add: as'_def)
    with z show ?thesis by simp
  next
    case (Some x)
    with z show ?thesis by (simp add: as'_def)
  qed
  show "Map_get as' a \<noteq> None"
    by (cases "Map_get as a") (simp_all add: as'_def Map_get_Map_set)
  show "\<And>k. Map_get as k \<noteq> None \<Longrightarrow> Map_get as' k \<noteq> None"
    by (cases "Map_get as a") (simp_all add: as'_def Map_get_Map_set)
qed

lemma commits_enter:
  fixes cs :: "(string, IGitCommit) Map" and l :: IGitCommitLine
  assumes sh: "list_all (\<lambda>p. IGitCommit.sha (snd p) = fst p \<and> Q (IGitCommit.author (snd p))) cs"
    and d: "distinct (map fst cs)"
    and new: "IGitCommit.sha c0 = k" "Q (IGitCommit.author c0)" "IGitCommit.lines c0 = []"
  defines "c \<equiv> (case Map_get cs k of None \<Rightarrow> c0 | Some x \<Rightarrow> x)"
  defines "cs' \<equiv> Map_set k (c\<lparr>IGitCommit.lines := IGitCommit.lines c @ [l]\<rparr>) cs"
  shows "list_all (\<lambda>p. IGitCommit.sha (snd p) = fst p \<and> Q (IGitCommit.author (snd p))) cs'"
    and "distinct (map fst cs')"
    and "sum_list (map (\<lambda>c. length (IGitCommit.lines c)) (Map_values cs'))
         = Suc (sum_list (map (\<lambda>c. length (IGitCommit.lines c)) (Map_values cs)))"
proof -
  have c: "IGitCommit.sha c = k \<and> Q (IGitCommit.author c)"
  proof (cases "Map_get cs k")
    case None
    with new show ?thesis by (simp add: c_def)
  next
    case (Some x)
    then have "(k, x) \<in> set cs" by (rule Map_get_mem)
    with sh have "IGitCommit.sha x = k \<and> Q (IGitCommit.author x)"
      by (auto simp: list_all_iff)
    with Some show ?thesis by (simp add: c_def)
  qed
  have "set cs' \<subseteq> insert (k, c\<lparr>IGitCommit.lines := IGitCommit.lines c @ [l]\<rparr>) (set cs)"
    unfolding cs'_def by (rule Map_set_subset)
  with sh c show "list_all (\<lambda>p. IGitCommit.sha (snd p) = fst p \<and> Q (IGitCommit.author (snd p))) cs'"
    by (auto simp: list_all_iff)
  from d show "distinct (map fst cs')" unfolding cs'_def by (rule Map_set_distinct)
  show "sum_list (map (\<lambda>c. length (IGitCommit.lines c)) (Map_values cs'))
         = Suc (sum_list (map (\<lambda>c. length (IGitCommit.lines c)) (Map_values cs)))"
  proof (cases "Map_get cs k")
    case None
    then have "c = c0" by (simp add: c_def)
    with new Map_set_sum_fresh[OF None, of "\<lambda>c. length (IGitCommit.lines c)"
        "c\<lparr>IGitCommit.lines := IGitCommit.lines c @ [l]\<rparr>"]
    show ?thesis by (simp add: cs'_def)
  next
    case (Some x)
    then have "c = x" by (simp add: c_def)
    with Map_set_sum_present[OF Some, of "\<lambda>c. length (IGitCommit.lines c)"
        "c\<lparr>IGitCommit.lines := IGitCommit.lines c @ [l]\<rparr>"]
    show ?thesis by (simp add: cs'_def)
  qed
qed

lemma blameStep_inv:
  assumes m: "okMatch blameMatcher 7 m" and inv: "blameInv st"
  shows "\<exists>st'. blameStep dateOf fname m st = Inr st' \<and> blameInv st'"
proof -
  from okMatch_blame[OF m] obtain m4 sh m2 where
    g: "grp m 4 = Some m4" "grp m 1 = Some sh" "grp m 2 = Some m2" by blast
  define a where "a = String_trim m4"
  define as' where "as' = (case Map_get (fst st) a of
                     None \<Rightarrow> Map_set a \<lparr>IGitAuthor.name = a, IGitAuthor.lineCount = 0\<rparr> (fst st)
                   | Some x \<Rightarrow> fst st)"
  define c0 where "c0 = \<lparr>IGitCommit.sha = sh, fileName = fname, IGitCommit.author = a,
      date = (case grp m 5 of None \<Rightarrow> None | Some d \<Rightarrow> dateOf d), IGitCommit.lines = []\<rparr>"
  define c where "c = (case Map_get (fst (snd st)) sh of None \<Rightarrow> c0 | Some x \<Rightarrow> x)"
  define l where "l = \<lparr>IGitCommitLine.sha = sh,
                   IGitCommitLine.line = map_option (\<lambda>i. i - 1) (parseInt10 (ToString (grp m 6))),
                   originalLine = map_option (\<lambda>i. i - 1) (parseInt10 (ToString (grp m 3))),
                   originalFileName =
                     (if \<not> String_endsWith (String_toLowerCase fname)
                             (String_toLowerCase (String_trim m2))
                      then Some (String_trim m2) else None)\<rparr>"
  define cs' where "cs' = Map_set sh (c\<lparr>IGitCommit.lines := IGitCommit.lines c @ [l]\<rparr>) (fst (snd st))"
  have e: "blameStep dateOf fname m st = Inr (as', cs', snd (snd st) @ [l])"
    unfolding as'_def cs'_def c_def c0_def l_def a_def blameStep_def Let_def g by simp
  from inv have ok: "authorsOk (fst st)"
    and z: "list_all (\<lambda>p. IGitAuthor.lineCount (snd p) = 0) (fst st)"
    and cinv: "list_all (\<lambda>p. IGitCommit.sha (snd p) = fst p
                        \<and> Map_get (fst st) (IGitCommit.author (snd p)) \<noteq> None) (fst (snd st))"
    and d: "distinct (map fst (fst (snd st)))"
    and s: "sum_list (map (\<lambda>c. length (IGitCommit.lines c)) (Map_values (fst (snd st))))
          = length (snd (snd st))"
    by (simp_all add: blameInv_def)
  note A = authors_enter[OF ok z, where a = a, folded as'_def]
  from cinv A(4) have cinv': "list_all (\<lambda>p. IGitCommit.sha (snd p) = fst p
                        \<and> Map_get as' (IGitCommit.author (snd p)) \<noteq> None) (fst (snd st))"
    by (auto simp: list_all_iff)
  have n1: "IGitCommit.sha c0 = sh" and n2: "Map_get as' (IGitCommit.author c0) \<noteq> None"
    and n3: "IGitCommit.lines c0 = []"
    using A(3) by (simp_all add: c0_def)
  note C = commits_enter[where Q = "\<lambda>x. Map_get as' x \<noteq> None", OF cinv' d n1 n2 n3,
      of l, folded c_def, folded cs'_def]
  have "blameInv (as', cs', snd (snd st) @ [l])"
    using A(1) A(2) C s by (simp add: blameInv_def)
  with e show ?thesis by blast
qed

lemma authorsOk_names:
  assumes "authorsOk as"
  shows "map IGitAuthor.name (Map_values as) = map fst as"
  using assms by (induction as) (auto simp: authorsOk_def Map_values_def)

lemma countLines_sum:
  "authorsOk as \<Longrightarrow> list_all (\<lambda>c. Map_get as (IGitCommit.author c) \<noteq> None) cs \<Longrightarrow>
   \<exists>as'. countLines cs as = Inr as' \<and> authorsOk as'
     \<and> sum_list (map IGitAuthor.lineCount (Map_values as'))
         = sum_list (map IGitAuthor.lineCount (Map_values as))
           + sum_list (map (\<lambda>c. length (IGitCommit.lines c)) cs)"
proof (induction cs arbitrary: as)
  case Nil
  then show ?case by simp
next
  case (Cons c cs)
  from Cons.prems(2) obtain a where a: "Map_get as (IGitCommit.author c) = Some a" by auto
  define v where "v = a\<lparr>IGitAuthor.lineCount := IGitAuthor.lineCount a + length (IGitCommit.lines c)\<rparr>"
  define as1 where "as1 = Map_set (IGitCommit.author c) v as"
  from a have mem: "(IGitCommit.author c, a) \<in> set as" by (rule Map_get_mem)
  with Cons.prems(1) have na: "IGitAuthor.name a = IGitCommit.author c"
    by (auto simp: authorsOk_def list_all_iff)
  from mem have "IGitCommit.author c \<in> fst ` set as" by force
  then have keys: "map fst as1 = map fst as" by (simp add: as1_def Map_set_keys)
  have "set as1 \<subseteq> insert (IGitCommit.author c, v) (set as)"
    unfolding as1_def by (rule Map_set_subset)
  with Cons.prems(1) na have "list_all (\<lambda>p. IGitAuthor.name (snd p) = fst p) as1"
    by (auto simp: authorsOk_def list_all_iff v_def)
  with Cons.prems(1) keys have ok1: "authorsOk as1" by (simp add: authorsOk_def)
  from Cons.prems(2) have rest1: "list_all (\<lambda>c. Map_get as1 (IGitCommit.author c) \<noteq> None) cs"
    by (auto simp: list_all_iff as1_def Map_get_Map_set)
  from Map_set_sum_present[OF a, of IGitAuthor.lineCount v]
  have s1: "sum_list (map IGitAuthor.lineCount (Map_values as1))
            = sum_list (map IGitAuthor.lineCount (Map_values as)) + length (IGitCommit.lines c)"
    by (simp add: as1_def v_def)
  from Cons.IH[OF ok1 rest1] obtain as' where
    r: "countLines cs as1 = Inr as'" and ok': "authorsOk as'"
    and s': "sum_list (map IGitAuthor.lineCount (Map_values as'))
         = sum_list (map IGitAuthor.lineCount (Map_values as1))
           + sum_list (map (\<lambda>c. length (IGitCommit.lines c)) cs)" by blast
  from a r have "countLines (c # cs) as = Inr as'" by (simp add: as1_def v_def)
  with ok' s' s1 show ?case by simp
qed

lemma sortAuthors_values:
  assumes "authorsOk as"
  shows "Map_values (sortAuthors as) = Array_sort byLineCount (Map_values as)"
proof -
  from assms have "distinct (map IGitAuthor.name (Map_values as))"
    by (simp add: authorsOk_names authorsOk_def)
  then show ?thesis unfolding sortAuthors_def by (rule sorted_values)
qed

lemma sortCommits_values:
  assumes "list_all (\<lambda>p. IGitCommit.sha (snd p) = fst p) cs" and "distinct (map fst cs)"
  shows "Map_values (sortCommits cs) = Array_sort byDate (Map_values cs)"
proof -
  from assms(1) have "map IGitCommit.sha (Map_values cs) = map fst cs"
    by (induction cs) (auto simp: Map_values_def)
  with assms(2) have "distinct (map IGitCommit.sha (Map_values cs))" by simp
  then show ?thesis unfolding sortCommits_def by (rule sorted_values)
qed

lemma blameInv_init: "blameInv ([], [], [])"
  by (simp add: blameInv_def authorsOk_def Map_values_def)

lemma zero_sum:
  "list_all (\<lambda>p. IGitAuthor.lineCount (snd p) = 0) as \<Longrightarrow>
   sum_list (map IGitAuthor.lineCount (Map_values as)) = 0"
  by (induction as) (auto simp: Map_values_def)

text \<open>
  C3. Whatever the text that \<open>Git.blame\<close> printed, the aggregator returns a blame, and
  in it the line counts of the authors, the lengths of the line lists of the commits,
  and the length of the list of all lines have the same total.
\<close>

theorem getBlameForFile_counts:
  "\<exists>b. getBlameForFile_then dateOf fname data = Returns b
     \<and> sum_list (map IGitAuthor.lineCount (Map_values (authors b))) = length (IGitBlame.lines b)
     \<and> sum_list (map (\<lambda>c. length (IGitCommit.lines c)) (Map_values (commits b)))
         = length (IGitBlame.lines b)"
proof -
  have "\<exists>st. execLoop True blameMatcher 7 (blameStep dateOf fname) None data ([], [], [])
              = Returns st \<and> blameInv st"
    by (rule execLoop_returns[where r = blameMatcher and I = blameInv
          and body = "blameStep dateOf fname"])
       (rule blameMatcher_minlen, rule blameStep_inv, assumption, assumption, rule blameInv_init)
  then obtain st where
    run: "execLoop True blameMatcher 7 (blameStep dateOf fname) None data ([], [], []) = Returns st"
    and inv: "blameInv st" by blast
  from inv have ok: "authorsOk (fst st)"
    and z: "list_all (\<lambda>p. IGitAuthor.lineCount (snd p) = 0) (fst st)"
    and cinv: "list_all (\<lambda>p. IGitCommit.sha (snd p) = fst p
                        \<and> Map_get (fst st) (IGitCommit.author (snd p)) \<noteq> None) (fst (snd st))"
    and d: "distinct (map fst (fst (snd st)))"
    and s: "sum_list (map (\<lambda>c. length (IGitCommit.lines c)) (Map_values (fst (snd st))))
          = length (snd (snd st))"
    by (simp_all add: blameInv_def)
  from cinv have known: "list_all (\<lambda>c. Map_get (fst st) (IGitCommit.author c) \<noteq> None)
                           (Map_values (fst (snd st)))"
    by (auto simp: list_all_iff Map_values_def)
  from cinv have shas: "list_all (\<lambda>p. IGitCommit.sha (snd p) = fst p) (fst (snd st))"
    by (auto simp: list_all_iff)
  from countLines_sum[OF ok known] obtain as' where
    cl: "countLines (Map_values (fst (snd st))) (fst st) = Inr as'" and ok': "authorsOk as'"
    and s': "sum_list (map IGitAuthor.lineCount (Map_values as'))
         = sum_list (map IGitAuthor.lineCount (Map_values (fst st)))
           + sum_list (map (\<lambda>c. length (IGitCommit.lines c)) (Map_values (fst (snd st))))"
    by blast
  define b where "b = \<lparr>authors = sortAuthors as', commits = sortCommits (fst (snd st)),
                        IGitBlame.lines = snd (snd st)\<rparr>"
  from run cl have r: "getBlameForFile_then dateOf fname data = Returns b"
    by (simp add: getBlameForFile_then_def b_def)
  from s' zero_sum[OF z] s
  have t: "sum_list (map IGitAuthor.lineCount (Map_values as')) = length (snd (snd st))"
    by simp
  have a: "sum_list (map IGitAuthor.lineCount (Map_values (authors b))) = length (IGitBlame.lines b)"
    using t by (simp add: b_def sortAuthors_values[OF ok'] Array_sort_sum)
  have c: "sum_list (map (\<lambda>c. length (IGitCommit.lines c)) (Map_values (commits b)))
         = length (IGitBlame.lines b)"
    using s by (simp add: b_def sortCommits_values[OF shas d] Array_sort_sum)
  from r a c show ?thesis by blast
qed

section \<open>Properties of the cache\<close>

lemma Map_get_Map_delete:
  "Map_get (Map_delete k m) k' = (if k' = k then None else Map_get m k')"
  by (induction m) (auto simp: Map_get_def Map_delete_def)

lemma settle_keys: "map fst (promises (settle d h res w)) = map fst (promises w)"
proof (cases "h < length (promises w) \<and> snd (promises w ! h) = Pending")
  case True
  then have "(map fst (promises w))[h := fst (promises w ! h)] = map fst (promises w)"
    by (simp add: list_update_same_conv)
  with True show ?thesis by (simp add: settle_def Let_def map_update)
next
  case False
  then show ?thesis by (auto simp: settle_def)
qed

lemma settle_provider: "gitProvider (settle d h res w) = gitProvider w"
  by (simp add: settle_def Let_def)

lemma settle_cached: "cached k h w \<Longrightarrow> cached k h (settle d h' res w)"
proof -
  assume c: "cached k h w"
  have l: "length (promises (settle d h' res w)) = length (promises w)"
    using arg_cong[OF settle_keys[of d h' res w], of length] by simp
  from c have b: "h < length (promises w)" by (simp add: cached_def)
  have "map fst (promises (settle d h' res w)) ! h = map fst (promises w) ! h"
    by (simp only: settle_keys)
  with b l have "fst (promises (settle d h' res w) ! h) = fst (promises w ! h)" by simp
  with c l show ?thesis by (simp add: cached_def settle_provider)
qed

lemma step_cached:
  assumes c: "cached k h w" and n: "\<not> removes np (GitProvider.repoPath (gitProvider w)) k e"
  shows "list_all (\<lambda>p. np (fst p) (GitProvider.repoPath (gitProvider w)) = k \<longrightarrow> snd p = h)
           (fst (step np d e w))"
    and "cached k h (snd (step np d e w))"
    and "buildsFor k (snd (step np d e w)) = buildsFor k w"
    and "GitProvider.repoPath (gitProvider (snd (step np d e w))) = GitProvider.repoPath (gitProvider w)"
proof -
  let ?rp = "GitProvider.repoPath (gitProvider w)"
  from c have m: "Map_get (blames (gitProvider w)) k = Some h"
    and b: "h < length (promises w)" and o: "fst (promises w ! h) = k"
    by (simp_all add: cached_def)
  have "list_all (\<lambda>p. np (fst p) ?rp = k \<longrightarrow> snd p = h) (fst (step np d e w))
      \<and> cached k h (snd (step np d e w))
      \<and> buildsFor k (snd (step np d e w)) = buildsFor k w
      \<and> GitProvider.repoPath (gitProvider (snd (step np d e w))) = ?rp"
  proof (cases e)
    case (Request f)
    show ?thesis
    proof (cases "Map_get (blames (gitProvider w)) (np f ?rp)")
      case None
      with m have ne: "np f ?rp \<noteq> k" by auto
      with None m b o show ?thesis
        by (simp add: Request getBlameForFile_def Let_def cached_def buildsFor_def
            Map_get_Map_set nth_append)
    next
      case (Some h')
      with m c show ?thesis
        by (auto simp: Request getBlameForFile_def Let_def)
    qed
  next
    case (DidCloseTextDocument f)
    with n have "np f ?rp \<noteq> k" by simp
    with m b o show ?thesis
      by (simp add: DidCloseTextDocument private_removeFile_def Let_def cached_def buildsFor_def
          Map_get_Map_delete)
  next
    case (DidSaveTextDocument f)
    with n have "np f ?rp \<noteq> k" by simp
    with m b o show ?thesis
      by (simp add: DidSaveTextDocument private_removeFile_def Let_def cached_def buildsFor_def
          Map_get_Map_delete)
  next
    case (BlameSettled h' res)
    from settle_cached[OF c, of d h' res] show ?thesis
      by (simp add: BlameSettled buildsFor_def settle_keys settle_provider)
  next
    case Dispose
    with n show ?thesis by simp
  qed
  then show "list_all (\<lambda>p. np (fst p) ?rp = k \<longrightarrow> snd p = h) (fst (step np d e w))"
    and "cached k h (snd (step np d e w))"
    and "buildsFor k (snd (step np d e w)) = buildsFor k w"
    and "GitProvider.repoPath (gitProvider (snd (step np d e w))) = ?rp"
    by blast+
qed

lemma run_cached:
  "cached k h w \<Longrightarrow>
   list_all (\<lambda>e. \<not> removes np (GitProvider.repoPath (gitProvider w)) k e) es \<Longrightarrow>
   list_all (\<lambda>p. np (fst p) (GitProvider.repoPath (gitProvider w)) = k \<longrightarrow> snd p = h)
     (fst (run np d es w))
   \<and> cached k h (snd (run np d es w))
   \<and> buildsFor k (snd (run np d es w)) = buildsFor k w"
proof (induction es arbitrary: w)
  case Nil
  then show ?case by simp
next
  case (Cons e es)
  let ?rp = "GitProvider.repoPath (gitProvider w)"
  let ?w1 = "snd (step np d e w)"
  from Cons.prems(2) have n: "\<not> removes np ?rp k e"
    and ns: "list_all (\<lambda>e. \<not> removes np ?rp k e) es" by simp_all
  note S = step_cached[OF Cons.prems(1) n, of d]
  from ns S(4) have ns1: "list_all (\<lambda>e. \<not> removes np (GitProvider.repoPath (gitProvider ?w1)) k e) es"
    by simp
  from Cons.IH[OF S(2) ns1] S(4)
  have R: "list_all (\<lambda>p. np (fst p) ?rp = k \<longrightarrow> snd p = h) (fst (run np d es ?w1))"
    "cached k h (snd (run np d es ?w1))" "buildsFor k (snd (run np d es ?w1)) = buildsFor k ?w1"
    by simp_all
  from S(1) S(3) R show ?case by (simp add: Let_def)
qed

lemma step_settled:
  assumes b: "h < length (promises w)" and s: "snd (promises w ! h) \<noteq> Pending"
  shows "h < length (promises (snd (step np d e w)))
         \<and> promises (snd (step np d e w)) ! h = promises w ! h"
proof (cases e)
  case (Request f)
  with b show ?thesis
    by (simp add: getBlameForFile_def Let_def nth_append split: option.splits)
next
  case (DidCloseTextDocument f)
  with b show ?thesis by simp
next
  case (DidSaveTextDocument f)
  with b show ?thesis by simp
next
  case (BlameSettled h' res)
  show ?thesis
  proof (cases "h' < length (promises w) \<and> snd (promises w ! h') = Pending")
    case True
    with s have "h' \<noteq> h" by auto
    with True b show ?thesis by (simp add: BlameSettled settle_def Let_def)
  next
    case False
    then have "settle d h' res w = w" by (auto simp: settle_def)
    with b show ?thesis by (simp add: BlameSettled)
  qed
next
  case Dispose
  with b show ?thesis by simp
qed

lemma run_settled:
  "h < length (promises w) \<Longrightarrow> snd (promises w ! h) \<noteq> Pending \<Longrightarrow>
   h < length (promises (snd (run np d es w)))
   \<and> promises (snd (run np d es w)) ! h = promises w ! h"
proof (induction es arbitrary: w)
  case Nil
  then show ?case by simp
next
  case (Cons e es)
  let ?w1 = "snd (step np d e w)"
  from step_settled[OF Cons.prems, of np d e]
  have b1: "h < length (promises ?w1)" and e1: "promises ?w1 ! h = promises w ! h"
    by simp_all
  from Cons.prems(2) e1 have s1: "snd (promises ?w1 ! h) \<noteq> Pending" by simp
  from Cons.IH[OF b1 s1] e1 show ?case by (simp add: Let_def)
qed

lemma first_call:
  assumes "Map_get (blames (gitProvider w)) (np f (GitProvider.repoPath (gitProvider w))) = None"
  shows "fst (getBlameForFile np f w) = length (promises w)"
    and "promises (snd (getBlameForFile np f w))
         = promises w @ [(np f (GitProvider.repoPath (gitProvider w)), Pending)]"
    and "blames (gitProvider (snd (getBlameForFile np f w)))
         = Map_set (np f (GitProvider.repoPath (gitProvider w))) (length (promises w))
             (blames (gitProvider w))"
    and "GitProvider.repoPath (gitProvider (snd (getBlameForFile np f w)))
         = GitProvider.repoPath (gitProvider w)"
  using assms by (simp_all add: getBlameForFile_def Let_def)

text \<open>
  C2. When \<open>_blames\<close> has no entry for the normalized name of a file, a call of
  \<open>getBlameForFile\<close> puts the promise of its build, still pending, into \<open>_blames\<close>
  before it returns. Whatever happens then, as long as no document of that name is
  closed or saved and the provider is not disposed (requests for this and other files,
  builds that settle, this one too), every request for a file of that normalized name
  gets that promise, and that build stays the only one started for the name.
\<close>

theorem getBlameForFile_coalesces:
  assumes "Map_get (blames (gitProvider w)) (np f (GitProvider.repoPath (gitProvider w))) = None"
    and "list_all (\<lambda>e. \<not> removes np (GitProvider.repoPath (gitProvider w))
                          (np f (GitProvider.repoPath (gitProvider w))) e) es"
  shows "let k = np f (GitProvider.repoPath (gitProvider w));
             first = getBlameForFile np f w;
             h = fst first;
             later = run np d es (snd first)
         in Map_get (blames (gitProvider (snd first))) k = Some h
            \<and> promises (snd first) ! h = (k, Pending)
            \<and> list_all (\<lambda>p. np (fst p) (GitProvider.repoPath (gitProvider w)) = k \<longrightarrow> snd p = h)
                (fst later)
            \<and> Map_get (blames (gitProvider (snd later))) k = Some h
            \<and> fst (promises (snd later) ! h) = k
            \<and> buildsFor k (snd later) = Suc (buildsFor k w)"
proof -
  let ?rp = "GitProvider.repoPath (gitProvider w)"
  let ?k = "np f ?rp"
  let ?h = "fst (getBlameForFile np f w)"
  let ?w1 = "snd (getBlameForFile np f w)"
  note F = first_call[where np = np and f = f and w = w, OF assms(1)]
  have m: "Map_get (blames (gitProvider ?w1)) ?k = Some ?h"
    by (simp add: F Map_get_Map_set)
  have p: "promises ?w1 ! ?h = (?k, Pending)"
    by (simp add: F)
  have c: "cached ?k ?h ?w1"
    using m p by (simp add: cached_def F(1) F(2))
  from assms(1) have "?k \<notin> fst ` set (blames (gitProvider w))"
    by (simp add: Map_get_None)
  have b: "buildsFor ?k ?w1 = Suc (buildsFor ?k w)"
    by (simp add: buildsFor_def F(2))
  from assms(2) F(4)
  have ns: "list_all (\<lambda>e. \<not> removes np (GitProvider.repoPath (gitProvider ?w1)) ?k e) es"
    by simp
  from run_cached[OF c ns, of d] F(4) b
  have R: "list_all (\<lambda>p. np (fst p) ?rp = ?k \<longrightarrow> snd p = ?h) (fst (run np d es ?w1))"
    "cached ?k ?h (snd (run np d es ?w1))"
    "buildsFor ?k (snd (run np d es ?w1)) = Suc (buildsFor ?k w)"
    by simp_all
  from m p R show ?thesis by (simp add: Let_def cached_def)
qed

theorem getBlameForFile_coalesces_witness:
  "Map_get (blames (gitProvider runtime0))
     (inRepo ''/repo/a.ts'' (GitProvider.repoPath (gitProvider runtime0))) = None
   \<and> list_all (\<lambda>e. \<not> removes inRepo (GitProvider.repoPath (gitProvider runtime0))
                       (inRepo ''/repo/a.ts'' (GitProvider.repoPath (gitProvider runtime0))) e)
        events0
   \<and> (let k = inRepo ''/repo/a.ts'' (GitProvider.repoPath (gitProvider runtime0));
          first = getBlameForFile inRepo ''/repo/a.ts'' runtime0;
          h = fst first;
          later = run inRepo noDate events0 (snd first)
      in Map_get (blames (gitProvider (snd first))) k = Some h
         \<and> promises (snd first) ! h = (k, Pending)
         \<and> list_all (\<lambda>p. inRepo (fst p) (GitProvider.repoPath (gitProvider runtime0)) = k
                           \<longrightarrow> snd p = h) (fst later)
         \<and> Map_get (blames (gitProvider (snd later))) k = Some h
         \<and> fst (promises (snd later) ! h) = k
         \<and> buildsFor k (snd later) = Suc (buildsFor k runtime0))"
proof -
  have a: "Map_get (blames (gitProvider runtime0))
     (inRepo ''/repo/a.ts'' (GitProvider.repoPath (gitProvider runtime0))) = None"
    by (simp add: runtime0_def Map_get_def)
  have b: "list_all (\<lambda>e. \<not> removes inRepo (GitProvider.repoPath (gitProvider runtime0))
                       (inRepo ''/repo/a.ts'' (GitProvider.repoPath (gitProvider runtime0))) e)
        events0"
    by (simp add: events0_def runtime0_def inRepo_def)
  from a b getBlameForFile_coalesces[where np = inRepo and f = "''/repo/a.ts''" and w = runtime0
      and es = events0 and d = noDate, OF a b]
  show ?thesis by blast
qed

lemma run_events0:
  "run inRepo noDate events0 runtime0
   = ([(''a.ts'', 0), (''/repo/a.ts'', 0), (''b.ts'', 1), (''a.ts'', 0)],
      \<lparr>gitProvider =
         \<lparr>GitProvider.repoPath = ''/repo'', blames = [(''a.ts'', 0)], subscription = True\<rparr>,
       promises = [(''a.ts'', Fulfilled \<lparr>authors = [], commits = [], IGitBlame.lines = []\<rparr>),
                   (''b.ts'', Pending)]\<rparr>)"
  by code_simp

text \<open>
  C5. \<open>getBlameForFile\<close> has no handler for a build that fails. When the promise of
  \<open>Git.blame\<close> is rejected, the promise in \<open>_blames\<close> is rejected with the same error
  and stays there. Whatever happens then, as long as no document of that name is closed
  or saved and the provider is not disposed, every request for the file gets that
  rejected promise, and no build is started for the name.
\<close>

theorem failed_build_stays_cached:
  assumes "cached (np f (GitProvider.repoPath (gitProvider w))) h w"
    and "snd (promises w ! h) = Pending"
    and "list_all (\<lambda>ev. \<not> removes np (GitProvider.repoPath (gitProvider w))
                           (np f (GitProvider.repoPath (gitProvider w))) ev) es"
  shows "let k = np f (GitProvider.repoPath (gitProvider w));
             failed = settle d h (Inl e) w;
             later = run np d es failed
         in promises failed ! h = (k, Rejected e)
            \<and> Map_get (blames (gitProvider failed)) k = Some h
            \<and> list_all (\<lambda>p. np (fst p) (GitProvider.repoPath (gitProvider w)) = k \<longrightarrow> snd p = h)
                (fst later)
            \<and> promises (snd later) ! h = (k, Rejected e)
            \<and> Map_get (blames (gitProvider (snd later))) k = Some h
            \<and> buildsFor k (snd later) = buildsFor k w"
proof -
  let ?rp = "GitProvider.repoPath (gitProvider w)"
  let ?k = "np f ?rp"
  let ?w1 = "settle d h (Inl e) w"
  from assms(1) have m: "Map_get (blames (gitProvider w)) ?k = Some h"
    and b: "h < length (promises w)" and o: "fst (promises w ! h) = ?k"
    by (simp_all add: cached_def)
  from b o assms(2) have w1: "?w1 = w\<lparr>promises := (promises w)[h := (?k, Rejected e)]\<rparr>"
    by (simp add: settle_def Let_def)
  from b have p: "promises ?w1 ! h = (?k, Rejected e)"
    by (simp add: w1)
  have g: "gitProvider ?w1 = gitProvider w" by (rule settle_provider)
  from m have m1: "Map_get (blames (gitProvider ?w1)) ?k = Some h" by (simp only: g)
  have c1: "cached ?k h ?w1" by (rule settle_cached[OF assms(1)])
  have b1: "buildsFor ?k ?w1 = buildsFor ?k w" by (simp add: buildsFor_def settle_keys)
  from assms(3)
  have ns: "list_all (\<lambda>ev. \<not> removes np (GitProvider.repoPath (gitProvider ?w1)) ?k ev) es"
    by (simp only: g)
  from run_cached[OF c1 ns, of d] b1
  have R: "list_all (\<lambda>p. np (fst p) ?rp = ?k \<longrightarrow> snd p = h) (fst (run np d es ?w1))"
    "cached ?k h (snd (run np d es ?w1))"
    "buildsFor ?k (snd (run np d es ?w1)) = buildsFor ?k w"
    by (simp_all add: g)
  from c1 have h1: "h < length (promises ?w1)" by (simp add: cached_def)
  from p have s1: "snd (promises ?w1 ! h) \<noteq> Pending" by simp
  from run_settled[OF h1 s1, of np d es] p
  have q: "promises (snd (run np d es ?w1)) ! h = (?k, Rejected e)" by simp
  from R(2) have m2: "Map_get (blames (gitProvider (snd (run np d es ?w1)))) ?k = Some h"
    by (simp add: cached_def)
  from p m1 R(1) q m2 R(3) show ?thesis unfolding Let_def by blast
qed

theorem failed_build_stays_cached_witness:
  "cached (inRepo ''/repo/a.ts'' (GitProvider.repoPath (gitProvider runtime1))) 0 runtime1
   \<and> snd (promises runtime1 ! 0) = Pending
   \<and> list_all (\<lambda>ev. \<not> removes inRepo (GitProvider.repoPath (gitProvider runtime1))
                        (inRepo ''/repo/a.ts'' (GitProvider.repoPath (gitProvider runtime1))) ev)
        events1
   \<and> (let k = inRepo ''/repo/a.ts'' (GitProvider.repoPath (gitProvider runtime1));
          failed = settle noDate 0 (Inl enoent) runtime1;
          later = run inRepo noDate events1 failed
      in promises failed ! 0 = (k, Rejected enoent)
         \<and> Map_get (blames (gitProvider failed)) k = Some 0
         \<and> list_all (\<lambda>p. inRepo (fst p) (GitProvider.repoPath (gitProvider runtime1)) = k
                           \<longrightarrow> snd p = 0) (fst later)
         \<and> promises (snd later) ! 0 = (k, Rejected enoent)
         \<and> Map_get (blames (gitProvider (snd later))) k = Some 0
         \<and> buildsFor k (snd later) = buildsFor k runtime1)"
proof -
  have r: "runtime1 =
      \<lparr>gitProvider =
         \<lparr>GitProvider.repoPath = ''/repo'', blames = [(''a.ts'', 0)], subscription = True\<rparr>,
       promises = [(''a.ts'', Pending)]\<rparr>"
    by (simp add: runtime1_def runtime0_def getBlameForFile_def inRepo_def Let_def Map_get_def)
  have a: "cached (inRepo ''/repo/a.ts'' (GitProvider.repoPath (gitProvider runtime1))) 0 runtime1"
    by (simp add: r cached_def inRepo_def Map_get_def)
  have b: "snd (promises runtime1 ! 0) = Pending"
    by (simp add: r)
  have c: "list_all (\<lambda>ev. \<not> removes inRepo (GitProvider.repoPath (gitProvider runtime1))
                        (inRepo ''/repo/a.ts'' (GitProvider.repoPath (gitProvider runtime1))) ev)
        events1"
    by (simp add: r events1_def inRepo_def)
  from a b c failed_build_stays_cached[where np = inRepo and f = "''/repo/a.ts''" and w = runtime1
      and h = 0 and d = noDate and e = enoent and es = events1, OF a b c]
  show ?thesis by blast
qed

text \<open>
  A build fails and the file is asked for again: the second call gets the promise of
  the first, which is rejected, and the entry is still in \<open>_blames\<close>.
\<close>

theorem failed_build_not_removed_counterexample:
  "run inRepo noDate [Request ''a.ts'', BlameSettled 0 (Inl enoent), Request ''a.ts''] runtime0
   = ([(''a.ts'', 0), (''a.ts'', 0)],
      \<lparr>gitProvider =
         \<lparr>GitProvider.repoPath = ''/repo'', blames = [(''a.ts'', 0)], subscription = True\<rparr>,
       promises = [(''a.ts'', Rejected enoent)]\<rparr>)"
  by (simp add: runtime0_def getBlameForFile_def settle_def inRepo_def Let_def Map_get_def)

end
